theory Spec2Isabelle
  imports Main "HOL-Library.AList"
begin

section \<open>Values, survey definitions and session state\<close>

text \<open>
  The engine of \<^verbatim>\<open>src/app/core/survey_engine.py\<close> works on Python values that come
  from JSON: what the model returns (\<^verbatim>\<open>json.loads\<close>), the stored answers and the
  transcript contents. \<open>json\<close> is that value space. A dict is an association list
  read with \<open>map_of\<close>. Numbers are kept as integers: the engine never computes with
  a number, it only tests what kind of value it holds and whether the value is truthy.
\<close>

datatype json =
    JNull
  | JBool bool
  | JNum int
  | JStr string
  | JList "json list"
  | JDict "(string \<times> json) list"

text \<open>Python truthiness (\<^verbatim>\<open>x or y\<close>, \<^verbatim>\<open>if not x\<close>).\<close>

fun truthy :: "json \<Rightarrow> bool" where
  "truthy JNull = False"
| "truthy (JBool b) = b"
| "truthy (JNum n) = (n \<noteq> 0)"
| "truthy (JStr s) = (s \<noteq> [])"
| "truthy (JList xs) = (xs \<noteq> [])"
| "truthy (JDict kvs) = (kvs \<noteq> [])"

text \<open>\<^verbatim>\<open>x or y\<close> on values.\<close>

definition py_or :: "json \<Rightarrow> json \<Rightarrow> json" where
  "py_or x y = (if truthy x then x else y)"

text \<open>
  A question of the survey definition (\<^verbatim>\<open>src/app/surveys.py\<close>): the keys
  \<^verbatim>\<open>id\<close>, \<^verbatim>\<open>type\<close>, \<^verbatim>\<open>text\<close>, \<^verbatim>\<open>options\<close> (absent is the empty list),
  \<^verbatim>\<open>condition\<close> (absent, or a pair \<^verbatim>\<open>var\<close>/\<^verbatim>\<open>equals\<close>) and \<^verbatim>\<open>save_as\<close> (absent,
  or a storage key).
\<close>

record condition =
  var :: string
  equals :: string

record question =
  q_id :: string
  q_type :: string
  q_text :: string
  q_options :: "string list"
  q_condition :: "condition option"
  q_save_as :: "string option"

record survey_definition =
  intro :: string
  questions :: "question list"
  end_message :: "string option"
  off_topic_message :: "string option"
  moderate_answers :: bool

section \<open>Answer normalisation\<close>

text \<open>
  \<^verbatim>\<open>str.split(",")\<close>: the pieces between commas; the empty string gives one
  empty piece.
\<close>

fun split_comma :: "string \<Rightarrow> string list" where
  "split_comma [] = [[]]"
| "split_comma (c # cs) =
     (if c = CHR '','' then [] # split_comma cs
      else (case split_comma cs of
              [] \<Rightarrow> [[c]]
            | t # ts \<Rightarrow> (c # t) # ts))"

text \<open>
  \<^verbatim>\<open>str.strip()\<close> removes leading and trailing whitespace, the characters for
  which \<^verbatim>\<open>str.isspace\<close> holds. A character of a \<open>string\<close> is a code point below
  256; among these Python's whitespace is tab, line feed, vertical tab, form feed,
  carriage return, the four separators \<open>0x1c\<close> to \<open>0x1f\<close>, space, next line
  (\<open>0x85\<close>) and no-break space (\<open>0xa0\<close>).
\<close>

definition is_space :: "char \<Rightarrow> bool" where
  "is_space c =
     (of_char c \<in> {9, 10, 11, 12, 13, 28, 29, 30, 31, 32, 133, 160 :: nat})"

definition strip :: "string \<Rightarrow> string" where
  "strip s = rev (dropWhile is_space (rev (dropWhile is_space s)))"

text \<open>\<^verbatim>\<open>[v.strip() for v in parsed_value.split(",") if v.strip()]\<close>\<close>

definition split_tokens :: "string \<Rightarrow> string list" where
  "split_tokens s = map strip (filter (\<lambda>v. strip v \<noteq> []) (split_comma s))"

text \<open>\<^verbatim>\<open>opt in options\<close>, the options being strings.\<close>

definition in_options :: "json \<Rightarrow> string list \<Rightarrow> bool" where
  "in_options opt opts = (opt \<in> set (map JStr opts))"

text \<open>
  \<^verbatim>\<open>_normalize_answer(question, parsed_value)\<close> returns the triple
  \<^verbatim>\<open>(normalized_value, valid, needs_clarification)\<close>.
\<close>

definition normalize_answer :: "question \<Rightarrow> json \<Rightarrow> json \<times> bool \<times> bool" where
  "normalize_answer question parsed_value =
     (if parsed_value = JStr ''SKIP'' then (JStr ''SKIP'', True, False)
      else if q_type question = ''free_text'' then
        (case parsed_value of
           JStr s \<Rightarrow> (parsed_value, True, False)
         | _ \<Rightarrow> (JStr [], False, True))
      else if q_type question = ''multi_choice'' then
        (let parsed_value' =
               (case parsed_value of
                  JStr s \<Rightarrow> JList (map JStr (split_tokens s))
                | _ \<Rightarrow> parsed_value)
         in (case parsed_value' of
               JList xs \<Rightarrow>
                 if list_all (\<lambda>opt. in_options opt (q_options question)) xs
                 then (parsed_value', True, False)
                 else (JList [], False, True)
             | _ \<Rightarrow> (JList [], False, True)))
      else
        (case parsed_value of
           JStr s \<Rightarrow>
             if s \<in> set (q_options question) then (parsed_value, True, False)
             else (JStr [], False, True)
         | _ \<Rightarrow> (JStr [], False, True)))"

section \<open>Session state\<close>

text \<open>
  The status of a question is one of the four strings \<^verbatim>\<open>"unasked"\<close>,
  \<^verbatim>\<open>"asked"\<close>, \<^verbatim>\<open>"answered"\<close>, \<^verbatim>\<open>"skipped"\<close>. A transcript entry is the dict
  that \<^verbatim>\<open>_append_history\<close> appends.
\<close>

datatype status = Unasked | Asked | Answered | Skipped

record entry =
  role :: string
  content :: json
  question_id :: "string option"

text \<open>
  The session state is the dict of \<^verbatim>\<open>_initial_state\<close>. The dicts \<^verbatim>\<open>answers\<close> and
  \<^verbatim>\<open>question_status\<close> are association lists in insertion order, read with
  \<open>map_of\<close> and written with \<open>AList.update\<close> (which replaces the value of a key that
  is present and appends a key that is not, as a Python dict does). The state without
  its last key \<^verbatim>\<open>terminated\<close> is what the engine hands to the agent.
\<close>

record llm_state =
  session_id :: string
  survey_id :: string
  answers :: "(string \<times> json) list"
  question_status :: "(string \<times> status) list"
  current_question_id :: "string option"
  history :: "entry list"

record state = llm_state +
  terminated :: bool

text \<open>A dict comprehension: later pairs overwrite earlier ones with the same key.\<close>

definition dict_of :: "('k \<times> 'v) list \<Rightarrow> ('k \<times> 'v) list" where
  "dict_of kvs = foldl (\<lambda>d (k, v). AList.update k v d) [] kvs"

definition initial_state :: "string \<Rightarrow> string \<Rightarrow> survey_definition \<Rightarrow> state" where
  "initial_state sid svid survey_def =
     \<lparr> session_id = sid,
       survey_id = svid,
       answers = [],
       question_status = dict_of (map (\<lambda>q. (q_id q, Unasked)) (questions survey_def)),
       current_question_id = None,
       history = [],
       terminated = False \<rparr>"

text \<open>
  The persistence collaborator is a key-value store: \<^verbatim>\<open>load_remote_session\<close> reads a
  key, \<^verbatim>\<open>update_remote_session\<close> writes one. \<^verbatim>\<open>_save_state\<close> writes under the
  session id recorded in the state.
\<close>

type_synonym db = "(string \<times> state) list"

definition load_state :: "db \<Rightarrow> string \<Rightarrow> state option" where
  "load_state db sid = map_of db sid"

definition save_state :: "db \<Rightarrow> state \<Rightarrow> db" where
  "save_state db st = AList.update (session_id st) st db"

definition append_history :: "state \<Rightarrow> string \<Rightarrow> json \<Rightarrow> string option \<Rightarrow> state" where
  "append_history st r c qid =
     st\<lparr>history := history st @ [\<lparr>role = r, content = c, question_id = qid\<rparr>]\<rparr>"

definition get_question_map :: "survey_definition \<Rightarrow> (string \<times> question) list" where
  "get_question_map survey_def = dict_of (map (\<lambda>q. (q_id q, q)) (questions survey_def))"

section \<open>Condition evaluation and progression\<close>

text \<open>
  \<^verbatim>\<open>_is_condition_met\<close>: no condition is met; a condition on a key with no stored
  value (or the value \<^verbatim>\<open>None\<close>) is not; a stored list is searched for the required
  value; any other stored value is compared with it.
\<close>

definition is_condition_met :: "question \<Rightarrow> (string \<times> json) list \<Rightarrow> bool" where
  "is_condition_met question answers_so_far =
     (case q_condition question of
        None \<Rightarrow> True
      | Some c \<Rightarrow>
          (case map_of answers_so_far (var c) of
             None \<Rightarrow> False
           | Some JNull \<Rightarrow> False
           | Some (JList xs) \<Rightarrow> JStr (equals c) \<in> set xs
           | Some stored \<Rightarrow> stored = JStr (equals c)))"

text \<open>
  \<^verbatim>\<open>_mark_conditionally_skipped\<close> walks over the items of \<^verbatim>\<open>question_status\<close>
  and rewrites the value of an \<^verbatim>\<open>unasked\<close> key whose question exists and whose
  condition is not met. Each item is rewritten from its own key and value only.
\<close>

definition mark_conditionally_skipped :: "state \<Rightarrow> survey_definition \<Rightarrow> state" where
  "mark_conditionally_skipped st survey_def =
     st\<lparr>question_status :=
          map (\<lambda>(qid, s).
                 if s \<noteq> Unasked then (qid, s)
                 else (case map_of (get_question_map survey_def) qid of
                         None \<Rightarrow> (qid, s)
                       | Some q \<Rightarrow>
                           if \<not> is_condition_met q (answers st) then (qid, Skipped)
                           else (qid, s)))
              (question_status st)\<rparr>"

text \<open>\<^verbatim>\<open>question_ids.index(x)\<close> for an \<open>x\<close> that occurs: the first position.\<close>

fun index_of :: "'a list \<Rightarrow> 'a \<Rightarrow> nat" where
  "index_of [] x = 0"
| "index_of (y # ys) x = (if x = y then 0 else Suc (index_of ys x))"

text \<open>
  The loop of \<^verbatim>\<open>_deterministic_next_question\<close> over the questions after the current
  one: it returns at the first question that is neither answered nor skipped and whose
  condition holds, and marks the others it passes as skipped when their condition fails.
\<close>

fun next_scan :: "question list \<Rightarrow> state \<Rightarrow> string option \<times> state" where
  "next_scan [] st = (None, st)"
| "next_scan (q # qs) st =
     (let s = map_of (question_status st) (q_id q) in
      if s = Some Answered \<or> s = Some Skipped then next_scan qs st
      else if \<not> is_condition_met q (answers st) then
        next_scan qs (st\<lparr>question_status := AList.update (q_id q) Skipped (question_status st)\<rparr>)
      else (Some (q_id q), st))"

definition deterministic_next_question ::
  "state \<Rightarrow> survey_definition \<Rightarrow> string option \<times> state" where
  "deterministic_next_question st survey_def =
     (let qs = questions survey_def;
          question_ids = map q_id qs;
          rest = (case current_question_id st of
                    None \<Rightarrow> qs
                  | Some c \<Rightarrow>
                      if c \<in> set question_ids then drop (index_of question_ids c + 1) qs
                      else qs)
      in next_scan rest (mark_conditionally_skipped st survey_def))"

text \<open>The loop of \<^verbatim>\<open>_eligible_questions\<close>, over all questions.\<close>

fun eligible_scan :: "question list \<Rightarrow> state \<Rightarrow> question list \<times> state" where
  "eligible_scan [] st = ([], st)"
| "eligible_scan (q # qs) st =
     (let s = map_of (question_status st) (q_id q) in
      if s = Some Answered \<or> s = Some Skipped then eligible_scan qs st
      else if \<not> is_condition_met q (answers st) then
        eligible_scan qs
          (st\<lparr>question_status := AList.update (q_id q) Skipped (question_status st)\<rparr>)
      else (case eligible_scan qs st of (es, st') \<Rightarrow> (q # es, st')))"

definition eligible_questions :: "state \<Rightarrow> survey_definition \<Rightarrow> question list \<times> state" where
  "eligible_questions st survey_def =
     eligible_scan (questions survey_def) (mark_conditionally_skipped st survey_def)"

text \<open>\<^verbatim>\<open>_store_answer\<close>\<close>

definition store_answer :: "state \<Rightarrow> question \<Rightarrow> json \<Rightarrow> state" where
  "store_answer st question normalized_value =
     (let save_as = (case q_save_as question of None \<Rightarrow> q_id question | Some k \<Rightarrow> k);
          s = (if normalized_value = JStr ''SKIP'' then Skipped else Answered)
      in st\<lparr>answers := AList.update save_as normalized_value (answers st),
            question_status := AList.update (q_id question) s (question_status st)\<rparr>)"

section \<open>The agent's structured reply\<close>

text \<open>
  What the engine's collaborators contribute to one turn: the caller's message, the
  verdict \<^verbatim>\<open>agent.review_answer(message, history)\<close> gives when it is called, and
  what the chat completion of \<^verbatim>\<open>survey_step\<close> yields: \<open>Some v\<close> when
  \<^verbatim>\<open>json.loads(response.choices[0].message.content)\<close> returns \<open>v\<close>, \<open>None\<close> when
  reading or parsing the content raises.
\<close>

record turn =
  user_message :: "string option"
  on_topic :: bool
  reply :: "json option"

text \<open>
  \<^verbatim>\<open>LLMAgent.survey_step\<close> (\<^verbatim>\<open>src/app/core/agent.py\<close>): the parsed content, or the
  fallback dict of its \<^verbatim>\<open>except\<close> branch.
\<close>

definition survey_step :: "llm_state \<Rightarrow> survey_definition \<Rightarrow> string \<Rightarrow> json option \<Rightarrow> json" where
  "survey_step st survey_def last_user_message parsed_content =
     (let current_question =
            (case current_question_id st of
               None \<Rightarrow> None
             | Some c \<Rightarrow> map_of (get_question_map survey_def) c);
          current_question_text =
            (case current_question of None \<Rightarrow> [] | Some q \<Rightarrow> q_text q);
          current_id = (case current_question_id st of None \<Rightarrow> JNull | Some c \<Rightarrow> JStr c)
      in case parsed_content of
           Some v \<Rightarrow> v
         | None \<Rightarrow>
             JDict
               [(''parsed_answer'',
                  JDict [(''question_id'', current_id), (''value'', JStr ''SKIP''),
                         (''confidence'', JNum 0), (''notes'', JStr ''fallback'')]),
                (''need_clarification'', JBool True),
                (''clarification_question'',
                  py_or (JStr current_question_text) (JStr ''Could you clarify your answer?'')),
                (''next_question_id'', current_id),
                (''assistant_question_text'', py_or (JStr current_question_text) (JStr [])),
                (''reasoning_brief'', JStr ''fallback'')])"

section \<open>The engine\<close>

text \<open>
  A Python exception that leaves the engine is a value: \<open>Inl\<close> of the exception.
  \<open>x.get(k)\<close> exists on a dict only.
\<close>

datatype error = KeyError | AttributeError

definition dict_get :: "json \<Rightarrow> string \<Rightarrow> error + json" where
  "dict_get x k =
     (case x of
        JDict kvs \<Rightarrow> Inr (case map_of kvs k of None \<Rightarrow> JNull | Some v \<Rightarrow> v)
      | _ \<Rightarrow> Inl AttributeError)"

text \<open>The dict a call returns: \<^verbatim>\<open>interview_id\<close> is present on session start only.\<close>

record result =
  res_session_id :: string
  res_interview_id :: "string option"
  message :: json

type_synonym surveys = "(string \<times> survey_definition) list"

definition end_message_of :: "survey_definition \<Rightarrow> string" where
  "end_message_of survey_def =
     (case end_message survey_def of None \<Rightarrow> ''Survey complete.'' | Some m \<Rightarrow> m)"

definition render_intro_and_question :: "survey_definition \<Rightarrow> question \<Rightarrow> string" where
  "render_intro_and_question survey_def question =
     strip (intro survey_def) @ [CHR 0x0A, CHR 0x0A] @ q_text question"

text \<open>\<^verbatim>\<open>not next_question_id\<close>: no id, or the empty string.\<close>

definition no_question :: "string option \<Rightarrow> bool" where
  "no_question n = (case n of None \<Rightarrow> True | Some i \<Rightarrow> i = [])"

definition begin_session :: "surveys \<Rightarrow> db \<Rightarrow> string \<Rightarrow> string \<Rightarrow> error + (result \<times> db)" where
  "begin_session svs db sid svid =
     (case map_of svs svid of
        None \<Rightarrow> Inl KeyError
      | Some survey_def \<Rightarrow>
          (case deterministic_next_question (initial_state sid svid survey_def) survey_def of
             (next_question_id, st) \<Rightarrow>
               if no_question next_question_id then
                 (let st1 = st\<lparr>terminated := True\<rparr>;
                      msg = end_message_of survey_def;
                      st2 = append_history st1 ''assistant'' (JStr msg) None
                  in Inr (\<lparr>res_session_id = sid, res_interview_id = Some svid,
                            message = JStr msg\<rparr>, save_state db st2))
               else
                 (case map_of (get_question_map survey_def) (the next_question_id) of
                    None \<Rightarrow> Inl KeyError
                  | Some question \<Rightarrow>
                      (let st1 = st\<lparr>current_question_id := next_question_id\<rparr>;
                           st2 = st1\<lparr>question_status :=
                                   AList.update (the next_question_id) Asked
                                     (question_status st1)\<rparr>;
                           msg = render_intro_and_question survey_def question;
                           st3 = append_history st2 ''assistant'' (JStr msg) next_question_id
                       in Inr (\<lparr>res_session_id = sid, res_interview_id = Some svid,
                                 message = JStr msg\<rparr>, save_state db st3)))))"

text \<open>
  \<^verbatim>\<open>_moderate_answer\<close>: the check is consulted only for a message that is present
  and a definition whose \<^verbatim>\<open>moderate_answers\<close> is set.
\<close>

definition moderate_answer :: "survey_definition \<Rightarrow> string option \<Rightarrow> bool \<Rightarrow> bool" where
  "moderate_answer survey_def msg review_answer =
     (case msg of
        None \<Rightarrow> True
      | Some m \<Rightarrow> if \<not> moderate_answers survey_def then True else review_answer)"

definition handle_clarification :: "db \<Rightarrow> state \<Rightarrow> string \<Rightarrow> json \<Rightarrow> result \<times> db" where
  "handle_clarification db st qid clarification_text =
     (let st1 = append_history st ''assistant'' clarification_text (Some qid)
      in (\<lparr>res_session_id = session_id st1, res_interview_id = None,
           message = clarification_text\<rparr>, save_state db st1))"

definition off_topic_reminder :: "survey_definition \<Rightarrow> string" where
  "off_topic_reminder survey_def =
     (case off_topic_message survey_def of
        None \<Rightarrow> ''Please respond to the current survey question or let me know if you'' @ [CHR 0x27] @ ''d like to skip.''
      | Some m \<Rightarrow> m)"

definition off_topic_response :: "db \<Rightarrow> state \<Rightarrow> survey_definition \<Rightarrow> result \<times> db" where
  "off_topic_response db st survey_def =
     (let reminder = off_topic_reminder survey_def;
          st1 = append_history st ''assistant'' (JStr reminder) (current_question_id st)
      in (\<lparr>res_session_id = session_id st1, res_interview_id = None,
           message = JStr reminder\<rparr>, save_state db st1))"

text \<open>
  The end of a session (lines 175 to 179 and 208 to 212 of \<^verbatim>\<open>next_step\<close>): the flag
  is set, the end message appended with no question id, the state saved.
\<close>

definition finish :: "db \<Rightarrow> string \<Rightarrow> state \<Rightarrow> survey_definition \<Rightarrow> result \<times> db" where
  "finish db sid st survey_def =
     (let st1 = st\<lparr>terminated := True\<rparr>;
          msg = end_message_of survey_def;
          st2 = append_history st1 ''assistant'' (JStr msg) None
      in (\<lparr>res_session_id = sid, res_interview_id = None, message = JStr msg\<rparr>,
          save_state db st2))"

text \<open>
  Lines 202 to 222 of \<^verbatim>\<open>next_step\<close>, after the answer is stored: the proposal of
  the reply is kept when it is among the ids of the eligible questions, and the
  candidate of \<^verbatim>\<open>_deterministic_next_question\<close> replaces it otherwise.
\<close>

definition ask ::
  "db \<Rightarrow> string \<Rightarrow> state \<Rightarrow> survey_definition \<Rightarrow> json \<Rightarrow> string option
     \<Rightarrow> error + (result \<times> db)" where
  "ask db sid st survey_def response next_question_id =
     (let st1 = st\<lparr>current_question_id := next_question_id\<rparr>;
          st2 = st1\<lparr>question_status :=
                  AList.update (the next_question_id) Asked (question_status st1)\<rparr>
      in case map_of (get_question_map survey_def) (the next_question_id) of
           None \<Rightarrow> Inl KeyError
         | Some next_question \<Rightarrow>
             (let given =
                    (case response of
                       JDict kvs \<Rightarrow>
                         (case map_of kvs ''assistant_question_text'' of
                            None \<Rightarrow> JNull
                          | Some v \<Rightarrow> v)
                     | _ \<Rightarrow> JNull);
                  assistant_question_text =
                    (if \<not> truthy given then JStr (q_text next_question) else given);
                  st3 = append_history st2 ''assistant'' assistant_question_text
                          next_question_id
              in Inr (\<lparr>res_session_id = sid, res_interview_id = None,
                        message = assistant_question_text\<rparr>,
                      save_state db st3)))"

definition advance ::
  "db \<Rightarrow> string \<Rightarrow> state \<Rightarrow> survey_definition \<Rightarrow> json \<Rightarrow> error + (result \<times> db)" where
  "advance db sid st survey_def response =
     (let proposed =
            (case response of
               JDict kvs \<Rightarrow>
                 (case map_of kvs ''next_question_id'' of None \<Rightarrow> JNull | Some v \<Rightarrow> v)
             | _ \<Rightarrow> JNull);
          (eligible, st1) = eligible_questions st survey_def;
          allowed_questions = map q_id eligible;
          (deterministic_next, st2) = deterministic_next_question st1 survey_def;
          next_question_id =
            (case proposed of
               JStr p \<Rightarrow>
                 if p \<notin> set allowed_questions then deterministic_next else Some p
             | _ \<Rightarrow> deterministic_next)
      in if no_question next_question_id then Inr (finish db sid st2 survey_def)
         else ask db sid st2 survey_def response next_question_id)"

text \<open>
  Lines 186 to 201: the reply is read, the value normalised, and the turn either asks for
  clarification or stores the answer and moves on. The reply is tested for being a dict
  where \<^verbatim>\<open>parsed_answer\<close> is read (line 186); \<^verbatim>\<open>parsed_answer.get\<close> (line 187) and
  \<^verbatim>\<open>response.get\<close> (lines 189 and 195) are called without that test. Lines 198 and
  199 write the question id into \<^verbatim>\<open>parsed_answer\<close>, which is not read again.
\<close>

definition interpret_reply ::
  "db \<Rightarrow> string \<Rightarrow> state \<Rightarrow> survey_definition \<Rightarrow> question \<Rightarrow> json \<Rightarrow> error + (result \<times> db)" where
  "interpret_reply db sid st survey_def current_question response =
     (let parsed_answer =
            (case response of
               JDict kvs \<Rightarrow> (case map_of kvs ''parsed_answer'' of None \<Rightarrow> JDict [] | Some v \<Rightarrow> v)
             | _ \<Rightarrow> JDict [])
      in case dict_get parsed_answer ''value'' of
           Inl e \<Rightarrow> Inl e
         | Inr parsed_value \<Rightarrow>
             (case normalize_answer current_question parsed_value of
                (normalized_value, valid, needs_clarification) \<Rightarrow>
                  (case dict_get response ''need_clarification'' of
                     Inl e \<Rightarrow> Inl e
                   | Inr flag \<Rightarrow>
                       (let need_clarification = (truthy flag \<or> needs_clarification);
                            need_clarification =
                              (if \<not> valid \<and> \<not> need_clarification then True
                               else need_clarification)
                        in if need_clarification then
                             (case dict_get response ''clarification_question'' of
                                Inl e \<Rightarrow> Inl e
                              | Inr c \<Rightarrow>
                                  Inr (handle_clarification db st (q_id current_question)
                                         (py_or c (JStr (q_text current_question)))))
                           else
                             advance db sid
                               (store_answer st current_question normalized_value)
                               survey_def response))))"

definition next_step ::
  "surveys \<Rightarrow> db \<Rightarrow> string \<Rightarrow> string \<Rightarrow> turn \<Rightarrow> error + (result \<times> db)" where
  "next_step svs db sid svid t =
     (case map_of svs svid of
        None \<Rightarrow> Inl KeyError
      | Some survey_def \<Rightarrow>
          (case load_state db sid of
             None \<Rightarrow> begin_session svs db sid svid
           | Some st0 \<Rightarrow>
               if terminated st0 then
                 Inr (\<lparr>res_session_id = sid, res_interview_id = None,
                       message = JStr (end_message_of survey_def)\<rparr>, db)
               else
                 (let st = mark_conditionally_skipped st0 survey_def
                  in if \<not> moderate_answer survey_def (user_message t) (on_topic t) then
                       Inr (off_topic_response db st survey_def)
                     else
                       (case (case current_question_id st of
                                None \<Rightarrow> None
                              | Some c \<Rightarrow> map_of (get_question_map survey_def) c) of
                          None \<Rightarrow> Inr (finish db sid st survey_def)
                        | Some current_question \<Rightarrow>
                            (let msg = (case user_message t of None \<Rightarrow> [] | Some m \<Rightarrow> m);
                                 st1 = append_history st ''user'' (JStr msg)
                                         (Some (q_id current_question));
                                 llm_state = llm_state.truncate st1;
                                 response = survey_step llm_state survey_def msg (reply t)
                             in interpret_reply db sid st1 survey_def current_question response)))))"

section \<open>Calls in sequence\<close>

text \<open>
  A caller makes one \<^verbatim>\<open>next_step\<close> call per turn for a session; a call that raises
  ends the sequence. The first call of a session finds no stored state and starts it.
\<close>

fun run :: "surveys \<Rightarrow> db \<Rightarrow> string \<Rightarrow> string \<Rightarrow> turn list \<Rightarrow> error + (result list \<times> db)" where
  "run svs db sid svid [] = Inr ([], db)"
| "run svs db sid svid (t # ts) =
     (case next_step svs db sid svid t of
        Inl e \<Rightarrow> Inl e
      | Inr (r, db') \<Rightarrow>
          (case run svs db' sid svid ts of
             Inl e \<Rightarrow> Inl e
           | Inr (rs, db'') \<Rightarrow> Inr (r # rs, db'')))"

section \<open>The questions a run asks\<close>

text \<open>
  A question becomes asked in a call when its status is \<^verbatim>\<open>asked\<close> in the state the
  call leaves and was not in the state the call found (no state, on first contact). The
  asked sequence of a run lists these ids call by call.
\<close>

definition is_asked :: "state option \<Rightarrow> string \<Rightarrow> bool" where
  "is_asked so q =
     (case so of None \<Rightarrow> False | Some st \<Rightarrow> map_of (question_status st) q = Some Asked)"

definition became_asked :: "survey_definition \<Rightarrow> state option \<Rightarrow> state option \<Rightarrow> string list" where
  "became_asked d before after =
     filter (\<lambda>q. is_asked after q \<and> \<not> is_asked before q) (map q_id (questions d))"

fun asked_sequence :: "surveys \<Rightarrow> db \<Rightarrow> string \<Rightarrow> string \<Rightarrow> turn list \<Rightarrow> string list" where
  "asked_sequence svs db sid svid [] = []"
| "asked_sequence svs db sid svid (t # ts) =
     (case (map_of svs svid, next_step svs db sid svid t) of
        (Some d, Inr (r, db')) \<Rightarrow>
          became_asked d (load_state db sid) (load_state db' sid)
            @ asked_sequence svs db' sid svid ts
      | _ \<Rightarrow> [])"

text \<open>The position of a question id in the definition, and the order it induces.\<close>

definition position :: "survey_definition \<Rightarrow> string \<Rightarrow> nat" where
  "position d q = index_of (map q_id (questions d)) q"


text \<open>
  The \<^verbatim>\<open>next_question_id\<close> of a reply, as line 202 reads it. A proposal goes
  backward in a state when it names a question of the definition that stands before the
  state's current question and is neither answered nor skipped in that state. A run is
  forward when no call of it gets a reply whose proposal goes backward in the state the
  call finds.
\<close>

definition proposal_of :: "json \<Rightarrow> json" where
  "proposal_of response =
     (case response of
        JDict kvs \<Rightarrow> (case map_of kvs ''next_question_id'' of None \<Rightarrow> JNull | Some v \<Rightarrow> v)
      | _ \<Rightarrow> JNull)"




section \<open>Runs that differ in the agent's wording only\<close>

text \<open>
  What \<^verbatim>\<open>next_step\<close> reads of the value \<^verbatim>\<open>survey_step\<close> returns, apart from the
  two texts \<^verbatim>\<open>clarification_question\<close> and \<^verbatim>\<open>assistant_question_text\<close>: the value
  of the parsed answer (lines 186 and 187), the clarification flag, of which lines 189
  to 194 use the truth value only, and the proposed next question (line 202). Reading
  the value raises when \<^verbatim>\<open>parsed_answer\<close> is no dict, reading the flag when the reply
  is none.
\<close>

definition value_read :: "json \<Rightarrow> error + json" where
  "value_read response =
     dict_get
       (case response of
          JDict kvs \<Rightarrow> (case map_of kvs ''parsed_answer'' of None \<Rightarrow> JDict [] | Some v \<Rightarrow> v)
        | _ \<Rightarrow> JDict [])
       ''value''"

definition flag_read :: "json \<Rightarrow> error + bool" where
  "flag_read response =
     (case dict_get response ''need_clarification'' of
        Inl e \<Rightarrow> Inl e
      | Inr flag \<Rightarrow> Inr (truthy flag))"

definition read_from :: "json \<Rightarrow> (error + json) \<times> (error + bool) \<times> json" where
  "read_from response = (value_read response, flag_read response, proposal_of response)"

text \<open>
  What a call takes from its collaborators on the way of \<^verbatim>\<open>next_step\<close>. A first
  contact and a call on a terminated session consult nobody. Otherwise the moderation
  check comes first (line 169), and the call stops there when it is told the message is
  off-topic. Otherwise the call ends the session when there is no current question, and
  else consults the agent (line 184) and reads its reply as above.
\<close>

datatype consulted =
    Not_Consulted
  | Off_Topic
  | Returned "(error + json) \<times> (error + bool) \<times> json"

definition consults :: "surveys \<Rightarrow> db \<Rightarrow> string \<Rightarrow> string \<Rightarrow> turn \<Rightarrow> consulted" where
  "consults svs db sid svid t =
     (case (map_of svs svid, load_state db sid) of
        (Some survey_def, Some st) \<Rightarrow>
          if terminated st then Not_Consulted
          else if \<not> moderate_answer survey_def (user_message t) (on_topic t) then Off_Topic
          else
            (case (case current_question_id st of
                     None \<Rightarrow> None
                   | Some c \<Rightarrow> map_of (get_question_map survey_def) c) of
               None \<Rightarrow> Not_Consulted
             | Some current_question \<Rightarrow>
                 Returned
                   (read_from
                      (survey_step (llm_state.truncate st) survey_def
                         (case user_message t of None \<Rightarrow> [] | Some m \<Rightarrow> m) (reply t))))
      | _ \<Rightarrow> Not_Consulted)"

text \<open>
  Two runs of a session, each from its own store, get the same answers when they have
  the same number of calls and, call by call as long as both go on, take the same from
  their collaborators: the same verdict of the moderation check, and from the agent the
  same value, clarification flag and proposal. Nothing is asked of the messages of the
  caller, nor of the texts in the replies.
\<close>

fun same_answers ::
  "surveys \<Rightarrow> string \<Rightarrow> string \<Rightarrow> db \<Rightarrow> turn list \<Rightarrow> db \<Rightarrow> turn list \<Rightarrow> bool" where
  "same_answers svs sid svid db [] db' [] = True"
| "same_answers svs sid svid db (t # ts) db' (t' # ts') =
     (consults svs db sid svid t = consults svs db' sid svid t'
      \<and> (case (next_step svs db sid svid t, next_step svs db' sid svid t') of
            (Inr (r, db1), Inr (r', db1')) \<Rightarrow> same_answers svs sid svid db1 ts db1' ts'
          | _ \<Rightarrow> True))"
| "same_answers svs sid svid db [] db' (t' # ts') = False"
| "same_answers svs sid svid db (t # ts) db' [] = False"

text \<open>
  The verdict of the moderation check is \<^verbatim>\<open>agent.review_answer(message, history)\<close>
  (\<^verbatim>\<open>src/app/core/agent.py\<close>), whatever the model answers to the message and the
  transcript of the state the call found: a function of the two. The turns of a session
  with the verdicts such a function gives, call by call.
\<close>

type_synonym review = "string \<Rightarrow> entry list \<Rightarrow> bool"

fun reviewed :: "review \<Rightarrow> surveys \<Rightarrow> db \<Rightarrow> string \<Rightarrow> string \<Rightarrow> turn list \<Rightarrow> turn list" where
  "reviewed review_answer svs db sid svid [] = []"
| "reviewed review_answer svs db sid svid (t # ts) =
     (let t' = (case (user_message t, load_state db sid) of
                  (Some m, Some st) \<Rightarrow> t\<lparr>on_topic := review_answer m (history st)\<rparr>
                | _ \<Rightarrow> t)
      in t' # (case next_step svs db sid svid t' of
                 Inl e \<Rightarrow> ts
               | Inr (r, db') \<Rightarrow> reviewed review_answer svs db' sid svid ts))"

text \<open>What a turn's reply holds of the three, when it can be parsed.\<close>

definition returns :: "turn \<Rightarrow> ((error + json) \<times> (error + bool) \<times> json) option" where
  "returns t = map_option read_from (reply t)"

text \<open>A state and a store without their transcripts, and what a call leaves of them.\<close>

definition erase_history :: "state \<Rightarrow> state" where
  "erase_history st = st\<lparr>history := []\<rparr>"

definition erase_store :: "db \<Rightarrow> db" where
  "erase_store db = map (\<lambda>(k, st). (k, erase_history st)) db"

definition outcome :: "error + (result \<times> db) \<Rightarrow> error + db" where
  "outcome x = (case x of Inl e \<Rightarrow> Inl e | Inr (r, db) \<Rightarrow> Inr (erase_store db))"

section \<open>The survey of the repository\<close>

text \<open>The definition in \<^verbatim>\<open>src/app/surveys.py\<close>; it has no \<^verbatim>\<open>moderate_answers\<close> key.\<close>

definition Q1 :: question where
  "Q1 =
     \<lparr> q_id = ''Q1'',
       q_type = ''single_choice'',
       q_text = ''In the past year, have you been discriminated against for any aspect of your identity?'',
       q_options = [''Yes'', ''No'', ''Prefer not to say''],
       q_condition = None,
       q_save_as = Some ''q1'' \<rparr>"

definition Q2 :: question where
  "Q2 =
     \<lparr> q_id = ''Q2'',
       q_type = ''multi_choice'',
       q_text = ''If you have been discriminated against, please select the source of the discrimination.'',
       q_options = [''Manager'', ''Colleague'', ''Customer/Client'', ''Policy/Process'', ''Other'', ''Prefer not to say''],
       q_condition = Some \<lparr>var = ''q1'', equals = ''Yes''\<rparr>,
       q_save_as = Some ''q2'' \<rparr>"

definition Q3 :: question where
  "Q3 =
     \<lparr> q_id = ''Q3'',
       q_type = ''single_choice'',
       q_text = ''In the past year, have you witnessed discrimination against anyone else in the organisation?'',
       q_options = [''Yes'', ''No'', ''Not sure''],
       q_condition = None,
       q_save_as = Some ''q3'' \<rparr>"

definition Q4 :: question where
  "Q4 =
     \<lparr> q_id = ''Q4'',
       q_type = ''multi_choice'',
       q_text = ''If you have witnessed discrimination, please select the source of the discrimination.'',
       q_options = [''Manager'', ''Colleague'', ''Customer/Client'', ''Policy/Process'', ''Other'', ''Not sure'', ''Prefer not to say''],
       q_condition = Some \<lparr>var = ''q3'', equals = ''Yes''\<rparr>,
       q_save_as = Some ''q4'' \<rparr>"

definition Q5 :: question where
  "Q5 =
     \<lparr> q_id = ''Q5'',
       q_type = ''likert_5'',
       q_text = ''This company takes active steps to prevent discrimination in the workplace.'',
       q_options = [''Strongly agree'', ''Agree'', ''Neither agree nor disagree'', ''Disagree'', ''Strongly disagree''],
       q_condition = None,
       q_save_as = Some ''q5'' \<rparr>"

definition Q6 :: question where
  "Q6 =
     \<lparr> q_id = ''Q6'',
       q_type = ''single_choice'',
       q_text = ''Do you feel comfortable addressing issues of discrimination or bias, regardless of your position or seniority?'',
       q_options = [''Yes'', ''No''],
       q_condition = None,
       q_save_as = Some ''q6'' \<rparr>"

definition Q7 :: question where
  "Q7 =
     \<lparr> q_id = ''Q7'',
       q_type = ''free_text'',
       q_text = ''Have we missed any social / cultural / demographic causes of discrimination you believe are important? If so, please let us know what they are.'',
       q_options = [],
       q_condition = None,
       q_save_as = Some ''q7'' \<rparr>"

definition CULTURE_DISCRIMINATION :: survey_definition where
  "CULTURE_DISCRIMINATION =
     \<lparr> intro = ''Thanks for taking a few minutes. There are no right or wrong answers, and you can skip any question.'',
       questions = [Q1, Q2, Q3, Q4, Q5, Q6, Q7],
       end_message = Some ''The survey is complete. Please proceed to the next page.---END---'',
       off_topic_message = Some (''Let'' @ [CHR 0x27] @ ''s stick with the current survey question. Could you answer the question directly or say if you'' @ [CHR 0x27] @ ''d like to skip it?''),
       moderate_answers = False \<rparr>"

definition SURVEYS :: surveys where
  "SURVEYS = [(''CULTURE_DISCRIMINATION'', CULTURE_DISCRIMINATION)]"

section \<open>Sample sessions\<close>

text \<open>
  Turns and stores on which the properties below are evaluated: the first contact of a
  session, a turn whose reply gives an answer value and proposes a next question, and a
  store that holds a terminated session of the repository's survey.
\<close>

definition first_contact :: turn where
  "first_contact = \<lparr>user_message = None, on_topic = True, reply = None\<rparr>"

definition answer_turn :: "string \<Rightarrow> json \<Rightarrow> turn" where
  "answer_turn v n =
     \<lparr>user_message = Some v, on_topic = True,
      reply = Some (JDict [(''parsed_answer'', JDict [(''value'', JStr v)]),
                           (''need_clarification'', JBool False),
                           (''next_question_id'', n)])\<rparr>"

definition ended_db :: db where
  "ended_db =
     [(''s1'', (initial_state ''s1'' ''CULTURE_DISCRIMINATION'' CULTURE_DISCRIMINATION)
                 \<lparr>terminated := True\<rparr>)]"

text \<open>A reply whose \<^verbatim>\<open>parsed_answer\<close> is \<^verbatim>\<open>null\<close>, and a reply that is a list.\<close>

definition null_answer_turn :: turn where
  "null_answer_turn =
     \<lparr>user_message = Some ''Yes'', on_topic = True,
      reply = Some (JDict [(''parsed_answer'', JNull), (''need_clarification'', JBool True),
                           (''clarification_question'', JStr ''Could you say more?'')])\<rparr>"

definition list_reply_turn :: turn where
  "list_reply_turn = \<lparr>user_message = Some ''Yes'', on_topic = True, reply = Some (JList [])\<rparr>"

text \<open>
  The store after the first contact of session \<open>s1\<close> with the repository's survey:
  Q1 is asked, and Q2 and Q4, whose conditions refer to answers not yet given, are
  already marked skipped.
\<close>

definition started_state :: state where
  "started_state =
     \<lparr> session_id = ''s1'',
       survey_id = ''CULTURE_DISCRIMINATION'',
       answers = [],
       question_status =
         [(''Q1'', Asked), (''Q2'', Skipped), (''Q3'', Unasked), (''Q4'', Skipped),
          (''Q5'', Unasked), (''Q6'', Unasked), (''Q7'', Unasked)],
       current_question_id = Some ''Q1'',
       history =
         [\<lparr>role = ''assistant'',
           content = JStr (render_intro_and_question CULTURE_DISCRIMINATION Q1),
           question_id = Some ''Q1''\<rparr>],
       terminated = False \<rparr>"

definition started_db :: db where
  "started_db = [(''s1'', started_state)]"

text \<open>The same survey with moderation switched on.\<close>

definition MODERATED :: surveys where
  "MODERATED =
     [(''CULTURE_DISCRIMINATION'', CULTURE_DISCRIMINATION\<lparr>moderate_answers := True\<rparr>)]"

text \<open>
  A message the moderation check rejects, with a reply that would answer Q1; and a
  reply whose value is no option of Q1 and that does not ask for clarification.
\<close>

definition off_topic_turn :: turn where
  "off_topic_turn = (answer_turn ''Yes'' JNull)\<lparr>on_topic := False\<rparr>"

definition maybe_turn :: turn where
  "maybe_turn = answer_turn ''Maybe'' (JStr ''Q3'')"



text \<open>
  A turn whose reply carries wording as well, and two sessions of the repository's
  survey that differ in the wording only: an answer that is no option of Q1, then the
  answer No with the proposal Q3.
\<close>

definition phrased_turn :: "string \<Rightarrow> json \<Rightarrow> string \<Rightarrow> string \<Rightarrow> turn" where
  "phrased_turn v n c a =
     \<lparr>user_message = Some v, on_topic = True,
      reply = Some (JDict [(''parsed_answer'', JDict [(''value'', JStr v)]),
                           (''need_clarification'', JBool False),
                           (''clarification_question'', JStr c),
                           (''next_question_id'', n),
                           (''assistant_question_text'', JStr a)])\<rparr>"

definition plain_session :: "turn list" where
  "plain_session =
     [first_contact,
      phrased_turn ''Maybe'' (JStr ''Q3'') ''Please answer Yes or No.'' ''Next question.'',
      phrased_turn ''No'' (JStr ''Q3'') ''Sorry?'' ''Have you witnessed any discrimination?'']"

definition chatty_session :: "turn list" where
  "chatty_session =
     [first_contact,
      phrased_turn ''Maybe'' (JStr ''Q3'') ''Could you pick one of the options for me?'' ''Thanks!'',
      phrased_turn ''No'' (JStr ''Q3'') [] []]"

text \<open>
  The answer \<^verbatim>\<open>"Manager\xa0, Colleague\x85"\<close>, whose tokens end with whitespace
  that is not ASCII.
\<close>

definition spaced_answer :: string where
  "spaced_answer = ''Manager'' @ [CHR 0xA0] @ '', Colleague'' @ [CHR 0x85]"

text \<open>
  A third session with the same answers, in which the caller words the messages
  differently and the replies hold other entries besides.
\<close>

definition reworded_session :: "turn list" where
  "reworded_session =
     [first_contact,
      \<lparr>user_message = Some ''Hard to say, maybe'', on_topic = True,
       reply = Some (JDict [(''parsed_answer'',
                               JDict [(''question_id'', JStr ''Q1''), (''value'', JStr ''Maybe''),
                                      (''confidence'', JNum 0)]),
                            (''next_question_id'', JStr ''Q3''),
                            (''reasoning_brief'', JStr ''unclear'')])\<rparr>,
      \<lparr>user_message = Some ''No, never'', on_topic = True,
       reply = Some (JDict [(''parsed_answer'',
                               JDict [(''question_id'', JStr ''Q1''), (''value'', JStr ''No''),
                                      (''confidence'', JNum 1)]),
                            (''need_clarification'', JNull),
                            (''next_question_id'', JStr ''Q3''),
                            (''assistant_question_text'', JStr ''And around you?'')])\<rparr>]"

text \<open>
  A moderation check that takes the answer No for a refusal when the transcript ends
  with the request to pick an option.
\<close>

definition strict_review :: review where
  "strict_review m h =
     (if h \<noteq> [] \<and> content (last h) = JStr ''Could you pick one of the options for me?''
      then m \<noteq> ''No'' else True)"

text \<open>
  A stored state the engine has not saved: as \<open>started_state\<close>, with Q2 still
  \<^verbatim>\<open>unasked\<close> although no answer meets its condition.
\<close>

definition unmarked_state :: state where
  "unmarked_state =
     started_state
       \<lparr>question_status :=
          [(''Q1'', Asked), (''Q2'', Unasked), (''Q3'', Unasked), (''Q4'', Skipped),
           (''Q5'', Unasked), (''Q6'', Unasked), (''Q7'', Unasked)]\<rparr>"

definition unmarked_db :: db where
  "unmarked_db = [(''s1'', unmarked_state)]"


section \<open>Auxiliary notions for the proofs\<close>

text \<open>
  What \<^verbatim>\<open>_mark_conditionally_skipped\<close> does to the status \<open>s\<close> stored under one key
  \<open>k\<close>, given the answers.
\<close>

definition remark :: "survey_definition \<Rightarrow> (string \<times> json) list \<Rightarrow> string \<Rightarrow> status \<Rightarrow> status" where
  "remark d ans k s =
     (if s \<noteq> Unasked then s
      else (case map_of (get_question_map d) k of
              None \<Rightarrow> s
            | Some q \<Rightarrow> if \<not> is_condition_met q ans then Skipped else s))"

text \<open>
  The current question of a state, when there is one, has status \<^verbatim>\<open>asked\<close>; and a
  store in which this holds of every session that has not terminated.
\<close>

definition current_asked :: "state \<Rightarrow> bool" where
  "current_asked st =
     (case current_question_id st of
        None \<Rightarrow> True
      | Some c \<Rightarrow> map_of (question_status st) c = Some Asked)"

definition store_ok :: "db \<Rightarrow> bool" where
  "store_ok db = (\<forall>(k, st) \<in> set db. map_of db k = Some st \<longrightarrow> terminated st \<or> current_asked st)"

text \<open>A session of the repository's survey in which every question offered is answered.\<close>

definition full_session :: "turn list" where
  "full_session =
     [first_contact,
      answer_turn ''No'' (JStr ''Q3''),
      answer_turn ''No'' (JStr ''Q5''),
      answer_turn ''Agree'' (JStr ''Q6''),
      answer_turn ''Yes'' (JStr ''Q7''),
      answer_turn ''Nothing to add'' JNull]"

text \<open>The part of a state that says where the session stands.\<close>

definition progress :: "state \<Rightarrow> bool \<times> string option \<times> (string \<times> status) list" where
  "progress st = (terminated st, current_question_id st, question_status st)"

text \<open>
  A question is eligible in a state when it is neither answered nor skipped there and
  its condition holds of the answers: the test both scans make on each question.
\<close>

definition eligible_in :: "state \<Rightarrow> question \<Rightarrow> bool" where
  "eligible_in st q =
     (map_of (question_status st) (q_id q) \<noteq> Some Answered
      \<and> map_of (question_status st) (q_id q) \<noteq> Some Skipped
      \<and> is_condition_met q (answers st))"

text \<open>
  The two notions of the specification, as functions of a state alone: the ids of the
  eligible questions, in definition order; and the first eligible question strictly
  after the current one in definition order (from the start when there is no current
  question in the definition).
\<close>

definition eligible_ids :: "state \<Rightarrow> survey_definition \<Rightarrow> string list" where
  "eligible_ids st d = map q_id (filter (eligible_in st) (questions d))"

definition questions_after_current :: "state \<Rightarrow> survey_definition \<Rightarrow> question list" where
  "questions_after_current st d =
     (case current_question_id st of
        None \<Rightarrow> questions d
      | Some c \<Rightarrow>
          if c \<in> set (map q_id (questions d))
          then drop (index_of (map q_id (questions d)) c + 1) (questions d)
          else questions d)"

definition first_eligible_after :: "state \<Rightarrow> survey_definition \<Rightarrow> string option" where
  "first_eligible_after st d =
     map_option q_id (find (eligible_in st) (questions_after_current st d))"


text \<open>
  A state is marked when \<^verbatim>\<open>_mark_conditionally_skipped\<close> leaves it as it is: no
  question of it is \<^verbatim>\<open>unasked\<close> with a condition that fails.
\<close>

definition marked :: "survey_definition \<Rightarrow> state \<Rightarrow> bool" where
  "marked d st = (mark_conditionally_skipped st d = st)"

section \<open>Basic facts\<close>

lemma map_of_foldl_update:
  "map_of (foldl (\<lambda>d (k, v). AList.update k v d) acc kvs) = map_of acc ++ map_of (rev kvs)"
proof (induction kvs arbitrary: acc)
  case Nil
  show ?case by simp
next
  case (Cons kv kvs)
  obtain k v where kv: "kv = (k, v)" by (cases kv)
  show ?case
    by (simp add: kv Cons.IH update_conv' map_add_def fun_eq_iff split: option.splits)
qed

lemma map_of_dict_of: "map_of (dict_of kvs) = map_of (rev kvs)"
  by (simp add: dict_of_def map_of_foldl_update)

lemma question_map_SomeD:
  assumes "map_of (get_question_map d) c = Some q"
  shows "q \<in> set (questions d) \<and> q_id q = c"
proof -
  from assms have "(c, q) \<in> set (rev (map (\<lambda>q. (q_id q, q)) (questions d)))"
    unfolding get_question_map_def map_of_dict_of by (rule map_of_SomeD)
  then show ?thesis by auto
qed

lemma question_map_distinct:
  assumes "distinct (map q_id (questions d))" "q \<in> set (questions d)"
  shows "map_of (get_question_map d) (q_id q) = Some q"
proof -
  have "distinct (map fst (rev (map (\<lambda>q. (q_id q, q)) (questions d))))"
    using assms(1) by (simp add: rev_map [symmetric] comp_def)
  moreover have "(q_id q, q) \<in> set (rev (map (\<lambda>q. (q_id q, q)) (questions d)))"
    using assms(2) by auto
  ultimately show ?thesis
    unfolding get_question_map_def map_of_dict_of by (rule map_of_is_SomeI)
qed

lemma map_of_map_keyed:
  "map_of (map (\<lambda>(k, v). (k, f k v)) al) k = map_option (f k) (map_of al k)"
  by (induction al) auto

lemma mark_alt:
  "mark_conditionally_skipped st d =
     st\<lparr>question_status :=
          map (\<lambda>(k, s). (k, remark d (answers st) k s)) (question_status st)\<rparr>"
proof -
  have "(\<lambda>(qid, s).
                 if s \<noteq> Unasked then (qid, s)
                 else (case map_of (get_question_map d) qid of
                         None \<Rightarrow> (qid, s)
                       | Some q \<Rightarrow>
                           if \<not> is_condition_met q (answers st) then (qid, Skipped)
                           else (qid, s))) = (\<lambda>(k, s). (k, remark d (answers st) k s))"
    by (auto simp: remark_def fun_eq_iff split: option.splits)
  then show ?thesis by (simp add: mark_conditionally_skipped_def)
qed

lemma remark_idem: "remark d a k (remark d a k s) = remark d a k s"
  by (simp add: remark_def split: option.splits)

lemma mark_status:
  "map_of (question_status (mark_conditionally_skipped st d)) k =
     map_option (remark d (answers st) k) (map_of (question_status st) k)"
  by (simp add: mark_alt map_of_map_keyed)

lemma mark_fields [simp]:
  "answers (mark_conditionally_skipped st d) = answers st"
  "current_question_id (mark_conditionally_skipped st d) = current_question_id st"
  "history (mark_conditionally_skipped st d) = history st"
  "terminated (mark_conditionally_skipped st d) = terminated st"
  "session_id (mark_conditionally_skipped st d) = session_id st"
  "survey_id (mark_conditionally_skipped st d) = survey_id st"
  by (simp_all add: mark_conditionally_skipped_def)

lemma mark_keeps_asked:
  "map_of (question_status st) k = Some Asked \<Longrightarrow>
   map_of (question_status (mark_conditionally_skipped st d)) k = Some Asked"
  by (simp add: mark_status remark_def)

lemma mark_idem:
  "mark_conditionally_skipped (mark_conditionally_skipped st d) d = mark_conditionally_skipped st d"
  by (simp add: mark_alt comp_def case_prod_unfold remark_idem)

lemma split_comma_nonempty: "split_comma s \<noteq> []"
  by (induction s) (auto split: list.splits)

lemma split_comma_no_comma: "p \<in> set (split_comma s) \<Longrightarrow> CHR '','' \<notin> set p"
  by (induction s arbitrary: p) (auto split: list.splits if_splits)

lemma strip_subset: "set (strip s) \<subseteq> set s"
  unfolding strip_def by (metis set_dropWhileD set_rev subsetI)

lemma strip_last: "strip s \<noteq> [] \<Longrightarrow> \<not> is_space (last (strip s))"
  unfolding strip_def by (simp add: last_rev hd_dropWhile)

lemma strip_hd:
  assumes "strip s \<noteq> []"
  shows "\<not> is_space (hd (strip s))"
proof -
  define u where "u = dropWhile is_space s"
  have split: "u = strip s @ rev (takeWhile is_space (rev u))"
    unfolding strip_def u_def
    by (metis rev_append rev_rev_ident takeWhile_dropWhile_id)
  with assms have "u \<noteq> []" by auto
  then have "\<not> is_space (hd u)"
    unfolding u_def by (rule hd_dropWhile)
  moreover have "hd u = hd (strip s)"
    using split assms by (metis hd_append2)
  ultimately show ?thesis by simp
qed

lemma split_tokens_trimmed:
  assumes "t \<in> set (split_tokens s)"
  shows "t \<noteq> [] \<and> \<not> is_space (hd t) \<and> \<not> is_space (last t) \<and> CHR '','' \<notin> set t"
proof -
  from assms obtain p where p: "p \<in> set (split_comma s)" "t = strip p" "strip p \<noteq> []"
    by (auto simp: split_tokens_def)
  have "CHR '','' \<notin> set t"
    using split_comma_no_comma [OF p(1)] strip_subset [of p] p(2) by auto
  with p strip_hd strip_last show ?thesis by simp
qed

lemma next_step_terminated:
  assumes "map_of svs svid = Some d" "load_state db sid = Some st" "terminated st"
  shows "next_step svs db sid svid t =
           Inr (\<lparr>res_session_id = sid, res_interview_id = None,
                 message = JStr (end_message_of d)\<rparr>, db)"
  using assms by (simp add: next_step_def)

lemma load_save [simp]: "load_state (save_state db st) (session_id st) = Some st"
  by (simp add: load_state_def save_state_def update_conv')

lemma load_save_other: "k \<noteq> session_id st \<Longrightarrow> load_state (save_state db st) k = load_state db k"
  by (simp add: load_state_def save_state_def update_conv')

lemma append_history_fields [simp]:
  "answers (append_history st r c q) = answers st"
  "question_status (append_history st r c q) = question_status st"
  "current_question_id (append_history st r c q) = current_question_id st"
  "terminated (append_history st r c q) = terminated st"
  "session_id (append_history st r c q) = session_id st"
  "survey_id (append_history st r c q) = survey_id st"
  "history (append_history st r c q) = history st @ [\<lparr>role = r, content = c, question_id = q\<rparr>]"
  by (simp_all add: append_history_def)

lemma survey_step_current:
  "current_question_id ls = current_question_id ls' \<Longrightarrow>
   survey_step ls d m rp = survey_step ls' d m' rp"
  by (simp add: survey_step_def)

lemma truncate_current [simp]:
  "current_question_id (llm_state.truncate st) = current_question_id st"
  by (simp add: llm_state.truncate_def)

lemma next_step_off_topic:
  assumes "map_of svs svid = Some d" "load_state db sid = Some st" "\<not> terminated st"
    and "\<not> moderate_answer d (user_message t) (on_topic t)"
  shows "next_step svs db sid svid t =
           Inr (off_topic_response db (mark_conditionally_skipped st d) d)"
  using assms by (simp add: next_step_def)

lemma next_step_active:
  assumes "map_of svs svid = Some d" "load_state db sid = Some st" "\<not> terminated st"
    and "moderate_answer d (user_message t) (on_topic t)"
    and "current_question_id st = Some c" "map_of (get_question_map d) c = Some cq"
    and "msg = (case user_message t of None \<Rightarrow> [] | Some m \<Rightarrow> m)"
  shows "next_step svs db sid svid t =
           interpret_reply db sid
             (append_history (mark_conditionally_skipped st d) ''user'' (JStr msg) (Some (q_id cq)))
             d cq (survey_step (llm_state.truncate st) d msg (reply t))"
proof -
  have "survey_step
          (llm_state.truncate
            (append_history (mark_conditionally_skipped st d) ''user'' (JStr msg) (Some (q_id cq))))
          d msg (reply t) = survey_step (llm_state.truncate st) d msg (reply t)"
    by (rule survey_step_current) simp
  then show ?thesis
    using assms by (simp add: next_step_def Let_def)
qed

lemma normalize_flags: "normalize_answer q v = (n, valid, nc) \<Longrightarrow> nc = (\<not> valid)"
  by (auto simp: normalize_answer_def Let_def split: if_splits json.splits)

lemma interpret_reply_clarify:
  assumes "dict_get (case map_of kvs ''parsed_answer'' of None \<Rightarrow> JDict [] | Some a \<Rightarrow> a) ''value''
             = Inr v"
    and "normalize_answer cq v = (n, valid, nc)"
    and "\<not> valid \<or> truthy (case map_of kvs ''need_clarification'' of None \<Rightarrow> JNull | Some f \<Rightarrow> f)"
  shows "interpret_reply db sid st d cq (JDict kvs) =
           Inr (handle_clarification db st (q_id cq)
                  (py_or (case map_of kvs ''clarification_question'' of None \<Rightarrow> JNull | Some x \<Rightarrow> x)
                         (JStr (q_text cq))))"
  using assms normalize_flags [OF assms(2)]
  by (auto simp: interpret_reply_def dict_get_def Let_def)

lemma interpret_reply_store:
  assumes "dict_get (case map_of kvs ''parsed_answer'' of None \<Rightarrow> JDict [] | Some a \<Rightarrow> a) ''value''
             = Inr v"
    and "normalize_answer cq v = (n, True, nc)"
    and "\<not> truthy (case map_of kvs ''need_clarification'' of None \<Rightarrow> JNull | Some f \<Rightarrow> f)"
  shows "interpret_reply db sid st d cq (JDict kvs) =
           advance db sid (store_answer st cq n) d (JDict kvs)"
  using assms normalize_flags [OF assms(2)]
  by (auto simp: interpret_reply_def dict_get_def Let_def)

lemma started_reachable:
  "begin_session SURVEYS [] ''s1'' ''CULTURE_DISCRIMINATION'' =
     Inr (\<lparr>res_session_id = ''s1'', res_interview_id = Some ''CULTURE_DISCRIMINATION'',
           message = JStr (render_intro_and_question CULTURE_DISCRIMINATION Q1)\<rparr>, started_db)"
  by code_simp

lemma mark_status_unchanged:
  "map_of (question_status st) k \<noteq> Some Unasked \<Longrightarrow>
   map_of (question_status (mark_conditionally_skipped st d)) k = map_of (question_status st) k"
  by (cases "map_of (question_status st) k") (auto simp: mark_status remark_def)

lemma handle_clarification_eq:
  "handle_clarification db st qid txt =
     (\<lparr>res_session_id = session_id st, res_interview_id = None, message = txt\<rparr>,
      save_state db (append_history st ''assistant'' txt (Some qid)))"
  by (simp add: handle_clarification_def Let_def)

lemma status_self: "\<exists>x. st = st\<lparr>question_status := x\<rparr>"
  by (rule exI [of _ "question_status st"]) simp

lemma next_scan_frame_ex:
  "\<exists>x. snd (next_scan qs st) = st\<lparr>question_status := x\<rparr>"
  by (induction qs st rule: next_scan.induct) (auto simp: Let_def status_self)

lemma eligible_scan_frame_ex:
  "\<exists>x. snd (eligible_scan qs st) = st\<lparr>question_status := x\<rparr>"
  by (induction qs st rule: eligible_scan.induct)
     (auto simp: Let_def status_self split: prod.splits)

lemma next_scan_fields [simp]:
  "answers (snd (next_scan qs st)) = answers st"
  "current_question_id (snd (next_scan qs st)) = current_question_id st"
  "history (snd (next_scan qs st)) = history st"
  "terminated (snd (next_scan qs st)) = terminated st"
  "session_id (snd (next_scan qs st)) = session_id st"
  "survey_id (snd (next_scan qs st)) = survey_id st"
  using next_scan_frame_ex [of qs st] by auto

lemma eligible_scan_fields [simp]:
  "answers (snd (eligible_scan qs st)) = answers st"
  "current_question_id (snd (eligible_scan qs st)) = current_question_id st"
  "history (snd (eligible_scan qs st)) = history st"
  "terminated (snd (eligible_scan qs st)) = terminated st"
  "session_id (snd (eligible_scan qs st)) = session_id st"
  "survey_id (snd (eligible_scan qs st)) = survey_id st"
  using eligible_scan_frame_ex [of qs st] by auto

lemma deterministic_next_fields [simp]:
  "answers (snd (deterministic_next_question st d)) = answers st"
  "current_question_id (snd (deterministic_next_question st d)) = current_question_id st"
  "history (snd (deterministic_next_question st d)) = history st"
  "terminated (snd (deterministic_next_question st d)) = terminated st"
  "session_id (snd (deterministic_next_question st d)) = session_id st"
  "survey_id (snd (deterministic_next_question st d)) = survey_id st"
  by (simp_all add: deterministic_next_question_def Let_def)

lemma eligible_questions_fields [simp]:
  "answers (snd (eligible_questions st d)) = answers st"
  "current_question_id (snd (eligible_questions st d)) = current_question_id st"
  "history (snd (eligible_questions st d)) = history st"
  "terminated (snd (eligible_questions st d)) = terminated st"
  "session_id (snd (eligible_questions st d)) = session_id st"
  "survey_id (snd (eligible_questions st d)) = survey_id st"
  by (simp_all add: eligible_questions_def)

lemma store_answer_fields [simp]:
  "current_question_id (store_answer st q n) = current_question_id st"
  "history (store_answer st q n) = history st"
  "terminated (store_answer st q n) = terminated st"
  "session_id (store_answer st q n) = session_id st"
  "survey_id (store_answer st q n) = survey_id st"
  by (simp_all add: store_answer_def Let_def)

lemma store_ok_iff:
  "store_ok db \<longleftrightarrow> (\<forall>k st. map_of db k = Some st \<longrightarrow> terminated st \<or> current_asked st)"
  unfolding store_ok_def by (auto dest: map_of_SomeD)

lemma store_ok_save:
  assumes "store_ok db" "terminated st \<or> current_asked st"
  shows "store_ok (save_state db st)"
  using assms unfolding store_ok_iff by (auto simp: save_state_def update_conv')

lemma finish_eq:
  "finish db sid st d =
     (\<lparr>res_session_id = sid, res_interview_id = None, message = JStr (end_message_of d)\<rparr>,
      save_state db (append_history (st\<lparr>terminated := True\<rparr>) ''assistant''
                       (JStr (end_message_of d)) None))"
  by (simp add: finish_def Let_def)

lemma ask_result:
  assumes "ask db sid st d resp nq = Inr (r, db')"
  shows "\<exists>st'. db' = save_state db st' \<and> current_question_id st' = nq
            \<and> map_of (question_status st') (the nq) = Some Asked
            \<and> session_id st' = session_id st \<and> terminated st' = terminated st
            \<and> answers st' = answers st"
  using assms
  by (auto simp: ask_def Let_def update_conv' split: option.splits)

lemma advance_result:
  assumes "advance db sid st d resp = Inr (r, db')"
  shows "\<exists>st'. db' = save_state db st' \<and> session_id st' = session_id st
            \<and> answers st' = answers st
            \<and> (terminated st' \<or> current_asked st')"
proof -
  obtain el st1 where e: "eligible_questions st d = (el, st1)" by (cases "eligible_questions st d")
  obtain dn st2 where n: "deterministic_next_question st1 d = (dn, st2)"
    by (cases "deterministic_next_question st1 d")
  have st1: "st1 = snd (eligible_questions st d)" using e by simp
  have st2: "st2 = snd (deterministic_next_question st1 d)" using n by simp
  have f: "session_id st2 = session_id st" "answers st2 = answers st"
    by (simp_all add: st1 st2)
  define nq where "nq = (case (case resp of JDict kvs \<Rightarrow>
                 (case map_of kvs ''next_question_id'' of None \<Rightarrow> JNull | Some v \<Rightarrow> v)
             | _ \<Rightarrow> JNull) of
               JStr p \<Rightarrow> if p \<notin> set (map q_id el) then dn else Some p
             | _ \<Rightarrow> dn)"
  have adv: "advance db sid st d resp =
     (if no_question nq then Inr (finish db sid st2 d) else ask db sid st2 d resp nq)"
    by (simp add: advance_def e n nq_def Let_def)
  show ?thesis
  proof (cases "no_question nq")
    case True
    with adv assms have "db' = save_state db (append_history (st2\<lparr>terminated := True\<rparr>) ''assistant''
                       (JStr (end_message_of d)) None)"
      by (simp add: finish_eq)
    then show ?thesis using f by (intro exI [of _ "append_history (st2\<lparr>terminated := True\<rparr>) ''assistant''
                       (JStr (end_message_of d)) None"]) simp
  next
    case False
    with adv assms have "ask db sid st2 d resp nq = Inr (r, db')" by simp
    from ask_result [OF this] obtain st' where s: "db' = save_state db st'"
      "current_question_id st' = nq" "map_of (question_status st') (the nq) = Some Asked"
      "session_id st' = session_id st2" "answers st' = answers st2" by blast
    from False obtain i where "nq = Some i" by (cases nq) (auto simp: no_question_def)
    with s have "current_asked st'" by (simp add: current_asked_def)
    with s f show ?thesis by auto
  qed
qed

lemma current_asked_append [simp]:
  "current_asked (append_history st r c q) = current_asked st"
  by (simp add: current_asked_def split: option.splits)

lemma current_asked_mark:
  "current_asked st \<Longrightarrow> current_asked (mark_conditionally_skipped st d)"
  by (auto simp: current_asked_def mark_keeps_asked split: option.splits)

lemma interpret_reply_result:
  assumes "interpret_reply db sid st d cq resp = Inr (r, db')" "current_asked st"
  shows "\<exists>st'. db' = save_state db st' \<and> session_id st' = session_id st
            \<and> (terminated st' \<or> current_asked st')"
proof -
  obtain kvs where resp: "resp = JDict kvs"
    using assms(1) by (cases resp) (auto simp: interpret_reply_def dict_get_def Let_def split: sum.splits prod.splits)
  obtain v where v: "dict_get (case map_of kvs ''parsed_answer'' of None \<Rightarrow> JDict [] | Some a \<Rightarrow> a) ''value'' = Inr v"
    using assms(1) unfolding resp
    by (cases "dict_get (case map_of kvs ''parsed_answer'' of None \<Rightarrow> JDict [] | Some a \<Rightarrow> a) ''value''")
       (auto simp: interpret_reply_def Let_def)
  obtain n valid nc where nm: "normalize_answer cq v = (n, valid, nc)"
    by (cases "normalize_answer cq v")
  show ?thesis
  proof (cases "\<not> valid \<or> truthy (case map_of kvs ''need_clarification'' of None \<Rightarrow> JNull | Some f \<Rightarrow> f)")
    case True
    from interpret_reply_clarify [OF v nm True, of db sid st d] assms(1)
    have "db' = save_state db (append_history st ''assistant''
             (py_or (case map_of kvs ''clarification_question'' of None \<Rightarrow> JNull | Some x \<Rightarrow> x)
                         (JStr (q_text cq))) (Some (q_id cq)))"
      by (simp add: resp handle_clarification_eq)
    moreover have "current_asked (append_history st ''assistant''
             (py_or (case map_of kvs ''clarification_question'' of None \<Rightarrow> JNull | Some x \<Rightarrow> x)
                         (JStr (q_text cq))) (Some (q_id cq)))"
      using assms(2) by simp
    ultimately show ?thesis by (intro exI [of _ "append_history st ''assistant''
             (py_or (case map_of kvs ''clarification_question'' of None \<Rightarrow> JNull | Some x \<Rightarrow> x)
                         (JStr (q_text cq))) (Some (q_id cq))"]) simp
  next
    case False
    then have valid: "valid" and nt: "\<not> truthy (case map_of kvs ''need_clarification'' of None \<Rightarrow> JNull | Some f \<Rightarrow> f)"
      by auto
    from interpret_reply_store [OF v nm [unfolded eqTrueI [OF valid]] nt, of db sid st d] assms(1)
    have "advance db sid (store_answer st cq n) d (JDict kvs) = Inr (r, db')"
      by (simp add: resp)
    from advance_result [OF this] show ?thesis by auto
  qed
qed

lemma begin_session_result:
  assumes "begin_session svs db sid svid = Inr (r, db')"
  shows "\<exists>st'. db' = save_state db st' \<and> session_id st' = sid \<and> current_asked st'"
proof -
  obtain d where d: "map_of svs svid = Some d"
    using assms by (cases "map_of svs svid") (auto simp: begin_session_def)
  obtain nq st where n: "deterministic_next_question (initial_state sid svid d) d = (nq, st)"
    by (cases "deterministic_next_question (initial_state sid svid d) d")
  have st: "st = snd (deterministic_next_question (initial_state sid svid d) d)" using n by simp
  have f: "session_id st = sid" "current_question_id st = None"
    by (simp_all add: st initial_state_def)
  show ?thesis
  proof (cases "no_question nq")
    case True
    with assms have "db' = save_state db (append_history (st\<lparr>terminated := True\<rparr>) ''assistant''
                       (JStr (end_message_of d)) None)"
      by (simp add: begin_session_def d n Let_def)
    then show ?thesis using f
      by (intro exI [of _ "append_history (st\<lparr>terminated := True\<rparr>) ''assistant''
                       (JStr (end_message_of d)) None"]) (simp add: current_asked_def)
  next
    case False
    then obtain i where i: "nq = Some i" by (cases nq) (auto simp: no_question_def)
    from assms False obtain q where q: "map_of (get_question_map d) i = Some q"
      by (cases "map_of (get_question_map d) i") (auto simp: begin_session_def d n i Let_def)
    let ?st' = "append_history
                 (st\<lparr>current_question_id := Some i,
                     question_status := AList.update i Asked (question_status st)\<rparr>)
                 ''assistant'' (JStr (render_intro_and_question d q)) (Some i)"
    from assms False have "db' = save_state db ?st'"
      by (simp add: begin_session_def d n i q Let_def)
    moreover have "current_asked ?st'" by (simp add: current_asked_def update_conv')
    ultimately show ?thesis using f by (intro exI [of _ ?st']) simp
  qed
qed

lemma next_step_result:
  assumes "next_step svs db sid svid t = Inr (r, db')"
    and "\<And>st. load_state db sid = Some st \<Longrightarrow> terminated st \<or> current_asked st"
  shows "db' = db \<or> (\<exists>st'. db' = save_state db st' \<and> (terminated st' \<or> current_asked st'))"
proof -
  obtain d where d: "map_of svs svid = Some d"
    using assms(1) by (cases "map_of svs svid") (auto simp: next_step_def)
  show ?thesis
  proof (cases "load_state db sid")
    case None
    with assms(1) d have "begin_session svs db sid svid = Inr (r, db')"
      by (simp add: next_step_def)
    from begin_session_result [OF this] show ?thesis by auto
  next
    case (Some st)
    show ?thesis
    proof (cases "terminated st")
      case True
      with next_step_terminated [OF d Some True, of t] assms(1) show ?thesis by simp
    next
      case nt: False
      with assms(2) [OF Some] have ca: "current_asked st" by simp
      show ?thesis
      proof (cases "moderate_answer d (user_message t) (on_topic t)")
        case False
        from next_step_off_topic [OF d Some nt False] assms(1)
        have "db' = save_state db (append_history (mark_conditionally_skipped st d) ''assistant''
                (JStr (off_topic_reminder d)) (current_question_id st))"
          by (simp add: off_topic_response_def Let_def)
        moreover have "current_asked (append_history (mark_conditionally_skipped st d) ''assistant''
                (JStr (off_topic_reminder d)) (current_question_id st))"
          using ca by (simp add: current_asked_mark)
        ultimately show ?thesis by blast
      next
        case True
        show ?thesis
        proof (cases "case current_question_id st of None \<Rightarrow> None
                      | Some c \<Rightarrow> map_of (get_question_map d) c")
          case None
          with assms(1) d Some nt True
          have "db' = save_state db (append_history ((mark_conditionally_skipped st d)\<lparr>terminated := True\<rparr>)
                  ''assistant'' (JStr (end_message_of d)) None)"
            by (simp add: next_step_def finish_eq Let_def)
          moreover have "terminated (append_history ((mark_conditionally_skipped st d)\<lparr>terminated := True\<rparr>)
                  ''assistant'' (JStr (end_message_of d)) None)" by simp
          ultimately show ?thesis by blast
        next
          case (Some cq)
          then obtain c where c: "current_question_id st = Some c" "map_of (get_question_map d) c = Some cq"
            by (cases "current_question_id st") auto
          from next_step_active [OF d \<open>load_state db sid = Some st\<close> nt True c refl] assms(1)
          have "interpret_reply db sid
             (append_history (mark_conditionally_skipped st d) ''user''
                (JStr (case user_message t of None \<Rightarrow> [] | Some m \<Rightarrow> m)) (Some (q_id cq)))
             d cq (survey_step (llm_state.truncate st) d
                (case user_message t of None \<Rightarrow> [] | Some m \<Rightarrow> m) (reply t)) = Inr (r, db')"
            by simp
          from interpret_reply_result [OF this] ca show ?thesis
            by (auto simp: current_asked_mark)
        qed
      qed
    qed
  qed
qed

lemma next_step_store_ok:
  assumes "store_ok db" "next_step svs db sid svid t = Inr (r, db')"
  shows "store_ok db'"
proof -
  have "terminated st \<or> current_asked st" if "load_state db sid = Some st" for st
    using assms(1) that unfolding store_ok_iff load_state_def by blast
  from next_step_result [OF assms(2) this] assms(1) show ?thesis
    by (auto intro: store_ok_save)
qed

lemma run_store_ok:
  "store_ok db \<Longrightarrow> run svs db sid svid ts = Inr (rs, db') \<Longrightarrow> store_ok db'"
proof (induction ts arbitrary: db rs)
  case Nil
  then show ?case by simp
next
  case (Cons t ts)
  from Cons.prems(2) obtain r db1 rs1 where
    s: "next_step svs db sid svid t = Inr (r, db1)" and
    r: "run svs db1 sid svid ts = Inr (rs1, db')"
    by (auto split: sum.splits prod.splits)
  from next_step_store_ok [OF Cons.prems(1) s] have "store_ok db1" .
  from Cons.IH [OF this r] show ?case .
qed

lemma maybe_turn_step:
  "next_step SURVEYS started_db ''s1'' ''CULTURE_DISCRIMINATION'' maybe_turn =
     Inr (\<lparr>res_session_id = ''s1'', res_interview_id = None, message = JStr (q_text Q1)\<rparr>,
          [(''s1'',
            append_history
              (append_history started_state ''user'' (JStr ''Maybe'') (Some ''Q1''))
              ''assistant'' (JStr (q_text Q1)) (Some ''Q1''))])"
  by code_simp

lemma eligible_in_skip_other:
  "q_id q' \<noteq> k \<Longrightarrow>
   eligible_in (st\<lparr>question_status := AList.update k Skipped (question_status st)\<rparr>) q'
     = eligible_in st q'"
  by (simp add: eligible_in_def update_conv')

lemma eligible_in_skip_same:
  "\<not> is_condition_met q (answers st) \<Longrightarrow>
   eligible_in (st\<lparr>question_status := AList.update k Skipped (question_status st)\<rparr>) q
     = eligible_in st q"
  by (simp add: eligible_in_def)

lemma eligible_scan_list:
  "distinct (map q_id qs) \<Longrightarrow> fst (eligible_scan qs st) = filter (eligible_in st) qs"
proof (induction qs arbitrary: st)
  case Nil
  show ?case by simp
next
  case (Cons q qs)
  let ?st' = "st\<lparr>question_status := AList.update (q_id q) Skipped (question_status st)\<rparr>"
  from Cons.prems have d: "distinct (map q_id qs)" and n: "\<forall>x\<in>set qs. q_id x \<noteq> q_id q"
    by (auto simp: image_iff)
  have same: "filter (eligible_in ?st') qs = filter (eligible_in st) qs"
    using n by (intro filter_cong refl eligible_in_skip_other) blast
  consider (settled) "map_of (question_status st) (q_id q) = Some Answered
                   \<or> map_of (question_status st) (q_id q) = Some Skipped"
    | (unmet) "\<not> (map_of (question_status st) (q_id q) = Some Answered
                   \<or> map_of (question_status st) (q_id q) = Some Skipped)"
              "\<not> is_condition_met q (answers st)"
    | (ok) "eligible_in st q"
    by (auto simp: eligible_in_def)
  then show ?case
  proof cases
    case settled
    then have "\<not> eligible_in st q" by (auto simp: eligible_in_def)
    with settled Cons.IH [OF d, of st] show ?thesis by (simp add: Let_def)
  next
    case unmet
    then have "\<not> eligible_in st q" by (auto simp: eligible_in_def)
    with unmet Cons.IH [OF d, of ?st'] same show ?thesis by (simp add: Let_def)
  next
    case ok
    then have "\<not> (map_of (question_status st) (q_id q) = Some Answered
                   \<or> map_of (question_status st) (q_id q) = Some Skipped)"
      "is_condition_met q (answers st)" by (auto simp: eligible_in_def)
    with ok Cons.IH [OF d, of st] show ?thesis by (simp add: Let_def case_prod_unfold)
  qed
qed

lemma next_scan_find:
  "distinct (map q_id qs) \<Longrightarrow>
   fst (next_scan qs st) = map_option q_id (find (eligible_in st) qs)"
proof (induction qs arbitrary: st)
  case Nil
  show ?case by simp
next
  case (Cons q qs)
  let ?st' = "st\<lparr>question_status := AList.update (q_id q) Skipped (question_status st)\<rparr>"
  from Cons.prems have d: "distinct (map q_id qs)" and n: "\<forall>x\<in>set qs. q_id x \<noteq> q_id q"
    by (auto simp: image_iff)
  have same: "find (eligible_in ?st') qs = find (eligible_in st) qs"
    using n by (intro find_cong refl eligible_in_skip_other) blast
  consider (settled) "map_of (question_status st) (q_id q) = Some Answered
                   \<or> map_of (question_status st) (q_id q) = Some Skipped"
    | (unmet) "\<not> (map_of (question_status st) (q_id q) = Some Answered
                   \<or> map_of (question_status st) (q_id q) = Some Skipped)"
              "\<not> is_condition_met q (answers st)"
    | (ok) "eligible_in st q"
    by (auto simp: eligible_in_def)
  then show ?case
  proof cases
    case settled
    then have "\<not> eligible_in st q" by (auto simp: eligible_in_def)
    with settled Cons.IH [OF d, of st] show ?thesis by (simp add: Let_def)
  next
    case unmet
    then have "\<not> eligible_in st q" by (auto simp: eligible_in_def)
    with unmet Cons.IH [OF d, of ?st'] same show ?thesis by (simp add: Let_def)
  next
    case ok
    then have "\<not> (map_of (question_status st) (q_id q) = Some Answered
                   \<or> map_of (question_status st) (q_id q) = Some Skipped)"
      "is_condition_met q (answers st)" by (auto simp: eligible_in_def)
    with ok show ?thesis by (simp add: Let_def)
  qed
qed

lemma eligible_scan_keeps_eligibility:
  "distinct (map q_id qs) \<Longrightarrow> q_id q' \<notin> q_id ` set qs \<or> q' \<in> set qs \<Longrightarrow>
   eligible_in (snd (eligible_scan qs st)) q' = eligible_in st q'"
proof (induction qs arbitrary: st)
  case Nil
  show ?case by simp
next
  case (Cons q qs)
  let ?st' = "st\<lparr>question_status := AList.update (q_id q) Skipped (question_status st)\<rparr>"
  from Cons.prems have d: "distinct (map q_id qs)" and n: "\<forall>x\<in>set qs. q_id x \<noteq> q_id q"
    by (auto simp: image_iff)
  from Cons.prems(2) n have side: "q_id q' \<notin> q_id ` set qs \<or> q' \<in> set qs"
    by (auto simp: image_iff)
  have ih: "eligible_in (snd (eligible_scan qs s)) q' = eligible_in s q'" for s
    using Cons.IH [OF d side] .
  have skip: "eligible_in ?st' q' = eligible_in st q'" if "\<not> is_condition_met q (answers st)"
  proof (cases "q_id q' = q_id q")
    case True
    with Cons.prems(2) n have "q' = q" by (auto simp: image_iff)
    with that show ?thesis by (simp add: eligible_in_skip_same)
  next
    case False
    then show ?thesis by (simp add: eligible_in_skip_other)
  qed
  show ?case
    using ih [of st] ih [of ?st'] skip
    by (auto simp: Let_def split: prod.splits)
qed

lemma mark_keeps_eligibility:
  assumes "distinct (map q_id (questions d))" "q \<in> set (questions d)"
  shows "eligible_in (mark_conditionally_skipped st d) q = eligible_in st q"
proof -
  have qm: "map_of (get_question_map d) (q_id q) = Some q"
    using assms by (rule question_map_distinct)
  show ?thesis
    by (cases "map_of (question_status st) (q_id q)")
       (auto simp: eligible_in_def mark_status remark_def qm)
qed

lemma questions_after_current_subset:
  "set (questions_after_current st d) \<subseteq> set (questions d)"
  by (auto simp: questions_after_current_def split: option.splits dest: in_set_dropD)

lemma questions_after_current_distinct:
  "distinct (map q_id (questions d)) \<Longrightarrow> distinct (map q_id (questions_after_current st d))"
  by (auto simp: questions_after_current_def drop_map [symmetric] split: option.splits)

lemma eligible_questions_list:
  assumes "distinct (map q_id (questions d))"
  shows "map q_id (fst (eligible_questions st d)) = eligible_ids st d"
proof -
  have "filter (eligible_in (mark_conditionally_skipped st d)) (questions d)
          = filter (eligible_in st) (questions d)"
    by (intro filter_cong refl mark_keeps_eligibility [OF assms])
  then show ?thesis
    by (simp add: eligible_questions_def eligible_ids_def eligible_scan_list [OF assms])
qed

lemma deterministic_next_candidate:
  assumes "distinct (map q_id (questions d))"
  shows "fst (deterministic_next_question st d) = first_eligible_after st d"
proof -
  have r: "deterministic_next_question st d =
             next_scan (questions_after_current st d) (mark_conditionally_skipped st d)"
    by (simp add: deterministic_next_question_def questions_after_current_def Let_def)
  have "find (eligible_in (mark_conditionally_skipped st d)) (questions_after_current st d)
          = find (eligible_in st) (questions_after_current st d)"
    using questions_after_current_subset [of st d]
    by (intro find_cong refl mark_keeps_eligibility [OF assms]) blast
  then show ?thesis
    by (simp add: r first_eligible_after_def
          next_scan_find [OF questions_after_current_distinct [OF assms]])
qed

lemma eligible_questions_keeps_eligibility:
  assumes "distinct (map q_id (questions d))" "q \<in> set (questions d)"
  shows "eligible_in (snd (eligible_questions st d)) q = eligible_in st q"
  using eligible_scan_keeps_eligibility [OF assms(1), of q "mark_conditionally_skipped st d"]
    mark_keeps_eligibility [OF assms, of st] assms(2)
  by (simp add: eligible_questions_def)

lemma eligible_questions_keeps_candidate:
  assumes "distinct (map q_id (questions d))"
  shows "first_eligible_after (snd (eligible_questions st d)) d = first_eligible_after st d"
proof -
  have q: "questions_after_current (snd (eligible_questions st d)) d = questions_after_current st d"
    by (simp add: questions_after_current_def)
  have "find (eligible_in (snd (eligible_questions st d))) (questions_after_current st d)
          = find (eligible_in st) (questions_after_current st d)"
    using questions_after_current_subset [of st d]
    by (intro find_cong refl eligible_questions_keeps_eligibility [OF assms]) blast
  then show ?thesis by (simp add: first_eligible_after_def q)
qed

lemma mark_asked_before:
  "map_of (question_status (mark_conditionally_skipped st d)) k = Some Asked \<Longrightarrow>
   map_of (question_status st) k = Some Asked"
  by (cases "map_of (question_status st) k")
     (auto simp: mark_status remark_def split: if_splits option.splits)

lemma next_scan_asked_before:
  "map_of (question_status (snd (next_scan qs st))) k = Some Asked \<Longrightarrow>
   map_of (question_status st) k = Some Asked"
proof (induction qs st rule: next_scan.induct)
  case (1 st)
  then show ?case by simp
next
  case (2 q qs st)
  then show ?case
    by (auto simp: Let_def update_conv' split: if_splits)
qed

lemma eligible_scan_asked_before:
  "map_of (question_status (snd (eligible_scan qs st))) k = Some Asked \<Longrightarrow>
   map_of (question_status st) k = Some Asked"
proof (induction qs st rule: eligible_scan.induct)
  case (1 st)
  then show ?case by simp
next
  case (2 q qs st)
  then show ?case
    by (auto simp: Let_def update_conv' case_prod_unfold split: if_splits)
qed

lemma deterministic_next_asked_before:
  "map_of (question_status (snd (deterministic_next_question st d))) k = Some Asked \<Longrightarrow>
   map_of (question_status st) k = Some Asked"
  by (auto simp: deterministic_next_question_def Let_def
      dest!: next_scan_asked_before mark_asked_before)

lemma eligible_questions_asked_before:
  "map_of (question_status (snd (eligible_questions st d))) k = Some Asked \<Longrightarrow>
   map_of (question_status st) k = Some Asked"
  by (auto simp: eligible_questions_def dest!: eligible_scan_asked_before mark_asked_before)







lemma eligible_ids_subset: "set (eligible_ids st d) \<subseteq> set (map q_id (questions d))"
  by (auto simp: eligible_ids_def)

lemma first_eligible_after_eligible:
  assumes "first_eligible_after st d = Some n"
  shows "n \<in> set (eligible_ids st d)"
proof -
  from assms obtain q where f: "find (eligible_in st) (questions_after_current st d) = Some q"
    and n: "n = q_id q" by (auto simp: first_eligible_after_def)
  from f have "eligible_in st q" "q \<in> set (questions_after_current st d)"
    by (auto simp: find_Some_iff)
  with questions_after_current_subset [of st d] n show ?thesis
    by (auto simp: eligible_ids_def)
qed

lemma question_map_defined:
  assumes "distinct (map q_id (questions d))" "n \<in> set (map q_id (questions d))"
  shows "\<exists>q. map_of (get_question_map d) n = Some q"
  using assms question_map_distinct [OF assms(1)] by auto

lemma advance_chosen:
  assumes dist: "distinct (map q_id (questions d))" and ne: "[] \<notin> set (map q_id (questions d))"
    and ch: "chosen =
           (case (case map_of kvs ''next_question_id'' of None \<Rightarrow> JNull | Some v \<Rightarrow> v) of
              JStr p \<Rightarrow> if p \<in> set (eligible_ids s d) then Some p else first_eligible_after s d
            | _ \<Rightarrow> first_eligible_after s d)"
  shows "\<exists>r st'. advance db sid s d (JDict kvs) = Inr (r, save_state db st')
           \<and> session_id st' = session_id s \<and> answers st' = answers s
           \<and> (case chosen of
                 Some n \<Rightarrow> current_question_id st' = Some n \<and> terminated st' = terminated s
                         \<and> map_of (question_status st') n = Some Asked
               | None \<Rightarrow> terminated st' \<and> current_question_id st' = current_question_id s)
           \<and> (\<forall>k. map_of (question_status st') k = Some Asked \<longrightarrow>
                  chosen = Some k \<or> map_of (question_status s) k = Some Asked)"
proof -
  obtain el s1 where e: "eligible_questions s d = (el, s1)" by (cases "eligible_questions s d")
  obtain dn s2 where n: "deterministic_next_question s1 d = (dn, s2)"
    by (cases "deterministic_next_question s1 d")
  have s1: "s1 = snd (eligible_questions s d)" and el: "el = fst (eligible_questions s d)"
    using e by simp_all
  have s2: "s2 = snd (deterministic_next_question s1 d)"
    and dn: "dn = fst (deterministic_next_question s1 d)" using n by simp_all
  have allowed: "map q_id el = eligible_ids s d"
    unfolding el by (rule eligible_questions_list [OF dist])
  have cand: "dn = first_eligible_after s d"
    unfolding dn s1
    by (simp add: deterministic_next_candidate [OF dist] eligible_questions_keeps_candidate [OF dist])
  have f: "session_id s2 = session_id s" "answers s2 = answers s"
    "current_question_id s2 = current_question_id s" "terminated s2 = terminated s"
    by (simp_all add: s1 s2)
  have old: "map_of (question_status s) k = Some Asked"
    if "map_of (question_status s2) k = Some Asked" for k
    using that unfolding s2 s1
    by (auto dest!: deterministic_next_asked_before eligible_questions_asked_before)
  have adv: "advance db sid s d (JDict kvs) =
     (if no_question chosen then Inr (finish db sid s2 d) else ask db sid s2 d (JDict kvs) chosen)"
    unfolding advance_def e n Let_def prod.case ch cand [symmetric] allowed [symmetric]
    by (simp split: json.splits)
  show ?thesis
  proof (cases chosen)
    case None
    then have "advance db sid s d (JDict kvs) = Inr (finish db sid s2 d)"
      using adv by (simp add: no_question_def)
    then show ?thesis using f None old
      by (auto simp: finish_eq
            intro!: exI [of _ "append_history (s2\<lparr>terminated := True\<rparr>) ''assistant''
                                 (JStr (end_message_of d)) None"])
  next
    case (Some i)
    have "i \<in> set (eligible_ids s d)"
      using Some ch first_eligible_after_eligible [of s d i]
      by (auto split: json.splits if_splits)
    with eligible_ids_subset [of s d] have ids: "i \<in> set (map q_id (questions d))" by blast
    with ne have "i \<noteq> []" by metis
    then have nq: "\<not> no_question chosen" by (simp add: Some no_question_def)
    from question_map_defined [OF dist ids] obtain q where q: "map_of (get_question_map d) i = Some q"
      by blast
    let ?txt = "if \<not> truthy (case map_of kvs ''assistant_question_text'' of None \<Rightarrow> JNull | Some v \<Rightarrow> v)
                then JStr (q_text q)
                else (case map_of kvs ''assistant_question_text'' of None \<Rightarrow> JNull | Some v \<Rightarrow> v)"
    let ?st' = "append_history
                  (s2\<lparr>current_question_id := Some i,
                      question_status := AList.update i Asked (question_status s2)\<rparr>)
                  ''assistant'' ?txt (Some i)"
    have "advance db sid s d (JDict kvs) =
            Inr (\<lparr>res_session_id = sid, res_interview_id = None, message = ?txt\<rparr>,
                 save_state db ?st')"
      using adv nq by (simp add: ask_def Some q Let_def)
    then show ?thesis using f Some old
      by (auto simp: update_conv' intro!: exI [of _ ?st'] split: if_splits)
  qed
qed




lemma became_asked_only:
  assumes "\<And>k. map_of (question_status st') k = Some Asked \<Longrightarrow>
                k = n \<or> is_asked before k"
    and "e \<in> set (became_asked d before (Some st'))"
  shows "e = n"
  using assms by (auto simp: became_asked_def is_asked_def)









lemma erase_fields [simp]:
  "answers (erase_history st) = answers st"
  "question_status (erase_history st) = question_status st"
  "current_question_id (erase_history st) = current_question_id st"
  "terminated (erase_history st) = terminated st"
  "session_id (erase_history st) = session_id st"
  "survey_id (erase_history st) = survey_id st"
  "history (erase_history st) = []"
  by (simp_all add: erase_history_def)

lemma erase_idem [simp]: "erase_history (erase_history st) = erase_history st"
  by (simp add: erase_history_def)

lemma erase_append [simp]: "erase_history (append_history st r c q) = erase_history st"
  by (simp add: erase_history_def append_history_def)

lemma erase_status_update [simp]:
  "erase_history (st\<lparr>question_status := x\<rparr>) = (erase_history st)\<lparr>question_status := x\<rparr>"
  "erase_history (st\<lparr>terminated := b\<rparr>) = (erase_history st)\<lparr>terminated := b\<rparr>"
  "erase_history (st\<lparr>current_question_id := c\<rparr>) = (erase_history st)\<lparr>current_question_id := c\<rparr>"
  by (simp_all add: erase_history_def)

lemma erase_mark:
  "erase_history (mark_conditionally_skipped st d) = mark_conditionally_skipped (erase_history st) d"
  by (simp add: mark_alt erase_history_def)

lemma erase_store_answer:
  "erase_history (store_answer st q n) = store_answer (erase_history st) q n"
  by (simp add: store_answer_def Let_def erase_history_def)

lemma erase_next_scan:
  "fst (next_scan qs (erase_history st)) = fst (next_scan qs st)
   \<and> snd (next_scan qs (erase_history st)) = erase_history (snd (next_scan qs st))"
  by (induction qs st rule: next_scan.induct) (simp_all add: Let_def)

lemma erase_eligible_scan:
  "fst (eligible_scan qs (erase_history st)) = fst (eligible_scan qs st)
   \<and> snd (eligible_scan qs (erase_history st)) = erase_history (snd (eligible_scan qs st))"
  by (induction qs st rule: eligible_scan.induct) (simp_all add: Let_def case_prod_unfold)

lemma erase_deterministic_next:
  "fst (deterministic_next_question (erase_history st) d) = fst (deterministic_next_question st d)"
  "snd (deterministic_next_question (erase_history st) d)
     = erase_history (snd (deterministic_next_question st d))"
  using erase_next_scan
  by (simp_all add: deterministic_next_question_def Let_def erase_mark [symmetric])

lemma erase_eligible_questions:
  "fst (eligible_questions (erase_history st) d) = fst (eligible_questions st d)"
  "snd (eligible_questions (erase_history st) d) = erase_history (snd (eligible_questions st d))"
  using erase_eligible_scan
  by (simp_all add: eligible_questions_def erase_mark [symmetric])

lemma erase_store_update:
  "erase_store (AList.update k st db) = AList.update k (erase_history st) (erase_store db)"
  by (induction db) (auto simp: erase_store_def)

lemma erase_store_save:
  "erase_store (save_state db st) = save_state (erase_store db) (erase_history st)"
  by (simp add: save_state_def erase_store_update)

lemma load_erase_store:
  "load_state (erase_store db) k = map_option erase_history (load_state db k)"
  by (induction db) (auto simp: load_state_def erase_store_def)

lemma outcome_simps [simp]:
  "outcome (Inl e) = Inl e"
  "outcome (Inr (r, db)) = Inr (erase_store db)"
  by (simp_all add: outcome_def)

lemma outcome_finish:
  "outcome (Inr (finish db sid st d)) =
     Inr (save_state (erase_store db) ((erase_history st)\<lparr>terminated := True\<rparr>))"
  by (simp add: finish_eq erase_store_save)

lemma outcome_clarification:
  "outcome (Inr (handle_clarification db st q txt)) =
     Inr (save_state (erase_store db) (erase_history st))"
  by (simp add: handle_clarification_eq erase_store_save)

lemma outcome_off_topic:
  "outcome (Inr (off_topic_response db st d)) =
     Inr (save_state (erase_store db) (erase_history st))"
  by (simp add: off_topic_response_def Let_def erase_store_save)

lemma outcome_ask:
  "outcome (ask db sid st d resp nq) =
     (case map_of (get_question_map d) (the nq) of
        None \<Rightarrow> Inl KeyError
      | Some q \<Rightarrow>
          Inr (save_state (erase_store db)
                 ((erase_history st)
                    \<lparr>current_question_id := nq,
                     question_status :=
                       AList.update (the nq) Asked (question_status (erase_history st))\<rparr>)))"
  by (simp add: ask_def Let_def erase_store_save split: option.splits)

lemma advance_unfold:
  "advance db sid s d r =
     (let s1 = snd (eligible_questions s d);
          s2 = snd (deterministic_next_question s1 d);
          nq = (case proposal_of r of
                  JStr p \<Rightarrow>
                    if p \<notin> set (map q_id (fst (eligible_questions s d)))
                    then fst (deterministic_next_question s1 d) else Some p
                | _ \<Rightarrow> fst (deterministic_next_question s1 d))
      in if no_question nq then Inr (finish db sid s2 d) else ask db sid s2 d r nq)"
  by (simp add: advance_def proposal_of_def case_prod_unfold Let_def)

lemma advance_agree:
  assumes "erase_store db1 = erase_store db2" "erase_history s1 = erase_history s2"
    and "proposal_of r1 = proposal_of r2"
  shows "outcome (advance db1 sid s1 d r1) = outcome (advance db2 sid s2 d r2)"
proof -
  have el: "fst (eligible_questions s1 d) = fst (eligible_questions s2 d)"
    using erase_eligible_questions(1) [of s1 d] erase_eligible_questions(1) [of s2 d] assms(2)
    by simp
  have a: "erase_history (snd (eligible_questions s1 d)) = erase_history (snd (eligible_questions s2 d))"
    using erase_eligible_questions(2) [of s1 d] erase_eligible_questions(2) [of s2 d] assms(2)
    by simp
  have dn: "fst (deterministic_next_question (snd (eligible_questions s1 d)) d)
          = fst (deterministic_next_question (snd (eligible_questions s2 d)) d)"
    using erase_deterministic_next(1) [of "snd (eligible_questions s1 d)" d]
      erase_deterministic_next(1) [of "snd (eligible_questions s2 d)" d] a
    by simp
  have b: "erase_history (snd (deterministic_next_question (snd (eligible_questions s1 d)) d))
         = erase_history (snd (deterministic_next_question (snd (eligible_questions s2 d)) d))"
    using erase_deterministic_next(2) [of "snd (eligible_questions s1 d)" d]
      erase_deterministic_next(2) [of "snd (eligible_questions s2 d)" d] a
    by simp
  define nq where "nq = (case proposal_of r2 of
                  JStr p \<Rightarrow>
                    if p \<notin> set (map q_id (fst (eligible_questions s2 d)))
                    then fst (deterministic_next_question (snd (eligible_questions s2 d)) d)
                    else Some p
                | _ \<Rightarrow> fst (deterministic_next_question (snd (eligible_questions s2 d)) d))"
  define b1 where "b1 = snd (deterministic_next_question (snd (eligible_questions s1 d)) d)"
  define b2 where "b2 = snd (deterministic_next_question (snd (eligible_questions s2 d)) d)"
  have u1: "advance db1 sid s1 d r1 =
              (if no_question nq then Inr (finish db1 sid b1 d) else ask db1 sid b1 d r1 nq)"
    unfolding advance_unfold Let_def el dn assms(3) nq_def b1_def by simp
  have u2: "advance db2 sid s2 d r2 =
              (if no_question nq then Inr (finish db2 sid b2 d) else ask db2 sid b2 d r2 nq)"
    unfolding advance_unfold Let_def nq_def b2_def by simp
  have bb: "erase_history b1 = erase_history b2" using b by (simp add: b1_def b2_def)
  have f: "outcome (Inr (finish db1 sid b1 d)) = outcome (Inr (finish db2 sid b2 d))"
    unfolding outcome_finish bb assms(1) ..
  have k: "outcome (ask db1 sid b1 d r1 nq) = outcome (ask db2 sid b2 d r2 nq)"
    unfolding outcome_ask bb assms(1) ..
  show ?thesis
    unfolding u1 u2 using f k by simp
qed

lemma begin_session_agree:
  assumes "erase_store db1 = erase_store db2"
  shows "outcome (begin_session svs db1 sid svid) = outcome (begin_session svs db2 sid svid)"
  by (simp add: begin_session_def Let_def case_prod_unfold erase_store_save assms
      split: option.splits)

lemma erase_truncate_current:
  "erase_history st1 = erase_history st2 \<Longrightarrow> current_question_id st1 = current_question_id st2"
  by (metis erase_fields(3))

lemma erase_eq_fields:
  assumes "erase_history st1 = erase_history st2"
  shows "terminated st1 = terminated st2" "current_question_id st1 = current_question_id st2"
    "question_status st1 = question_status st2" "session_id st1 = session_id st2"
    "answers st1 = answers st2"
  using assms erase_fields by metis+



lemma interpret_reply_reads:
  "interpret_reply db sid st d cq r =
     (case value_read r of
        Inl e \<Rightarrow> Inl e
      | Inr v \<Rightarrow>
          (case flag_read r of
             Inl e \<Rightarrow> Inl e
           | Inr fl \<Rightarrow>
               if fl \<or> \<not> fst (snd (normalize_answer cq v))
               then (case dict_get r ''clarification_question'' of
                       Inl e \<Rightarrow> Inl e
                     | Inr c \<Rightarrow>
                         Inr (handle_clarification db st (q_id cq)
                                (py_or c (JStr (q_text cq)))))
               else advance db sid (store_answer st cq (fst (normalize_answer cq v))) d r))"
proof (cases "value_read r")
  case (Inl e)
  then show ?thesis by (simp add: interpret_reply_def value_read_def Let_def)
next
  case (Inr v)
  obtain n valid nc where nm: "normalize_answer cq v = (n, valid, nc)"
    by (cases "normalize_answer cq v")
  from normalize_flags [OF nm] have nc: "nc = (\<not> valid)" .
  show ?thesis
  proof (cases "dict_get r ''need_clarification''")
    case (Inl e)
    then show ?thesis
      using Inr by (simp add: interpret_reply_def value_read_def flag_read_def Let_def nm)
  next
    case fl: (Inr flag)
    show ?thesis
      using Inr fl by (auto simp: interpret_reply_def value_read_def flag_read_def Let_def nm nc)
  qed
qed

lemma flag_read_dict:
  "flag_read r = Inr fl \<Longrightarrow> \<exists>c. dict_get r ''clarification_question'' = Inr c"
  by (cases r) (auto simp: flag_read_def dict_get_def)

lemma interpret_reply_agree:
  assumes db: "erase_store db1 = erase_store db2" and st: "erase_history st1 = erase_history st2"
    and rf: "read_from r1 = read_from r2"
  shows "outcome (interpret_reply db1 sid st1 d cq r1) = outcome (interpret_reply db2 sid st2 d cq r2)"
proof -
  from rf have v: "value_read r1 = value_read r2" and f: "flag_read r1 = flag_read r2"
    and p: "proposal_of r1 = proposal_of r2"
    by (simp_all add: read_from_def)
  show ?thesis
  proof (cases "value_read r2")
    case (Inl e)
    then show ?thesis by (simp add: interpret_reply_reads v)
  next
    case (Inr val)
    show ?thesis
    proof (cases "flag_read r2")
      case (Inl e)
      then show ?thesis by (simp add: interpret_reply_reads v f Inr)
    next
      case fl: (Inr b)
      from flag_read_dict [OF fl] obtain c2 where c2: "dict_get r2 ''clarification_question'' = Inr c2"
        by blast
      from flag_read_dict [OF fl [folded f]] obtain c1
        where c1: "dict_get r1 ''clarification_question'' = Inr c1"
        by blast
      let ?n = "fst (normalize_answer cq val)"
      have sa: "erase_history (store_answer st1 cq ?n) = erase_history (store_answer st2 cq ?n)"
        by (simp add: erase_store_answer st)
      have adv: "outcome (advance db1 sid (store_answer st1 cq ?n) d r1)
               = outcome (advance db2 sid (store_answer st2 cq ?n) d r2)"
        by (rule advance_agree [OF db sa p])
      have cla: "outcome (Inr (handle_clarification db1 st1 (q_id cq) x))
               = outcome (Inr (handle_clarification db2 st2 (q_id cq) y))" for x y
        unfolding outcome_clarification db st ..
      show ?thesis
        unfolding interpret_reply_reads v f Inr fl c1 c2
        using adv cla by (simp del: outcome_simps)
    qed
  qed
qed

lemma next_step_agree:
  assumes db: "erase_store db1 = erase_store db2"
    and ta: "consults svs db1 sid svid t1 = consults svs db2 sid svid t2"
  shows "outcome (next_step svs db1 sid svid t1) = outcome (next_step svs db2 sid svid t2)"
proof (cases "map_of svs svid")
  case None
  then show ?thesis by (simp add: next_step_def)
next
  case (Some d)
  have ld: "map_option erase_history (load_state db1 sid) = map_option erase_history (load_state db2 sid)"
    using db load_erase_store by metis
  show ?thesis
  proof (cases "load_state db1 sid")
    case None
    with ld have n2: "load_state db2 sid = None" by simp
    show ?thesis
      using begin_session_agree [OF db, of svs sid svid]
      by (simp add: next_step_def Some None n2 del: outcome_simps)
  next
    case s1: (Some st1)
    with ld obtain st2 where s2: "load_state db2 sid = Some st2"
      and e: "erase_history st1 = erase_history st2" by (cases "load_state db2 sid") auto
    note f = erase_eq_fields [OF e]
    show ?thesis
    proof (cases "terminated st1")
      case True
      then show ?thesis using f(1) by (simp add: next_step_def Some s1 s2 db)
    next
      case nt: False
      then have nt2: "\<not> terminated st2" using f(1) by simp
      have em: "erase_history (mark_conditionally_skipped st1 d)
              = erase_history (mark_conditionally_skipped st2 d)"
        by (simp add: erase_mark e)
      let ?cq = "case current_question_id st2 of None \<Rightarrow> None
                 | Some c \<Rightarrow> map_of (get_question_map d) c"
      let ?m1 = "case user_message t1 of None \<Rightarrow> [] | Some m \<Rightarrow> m"
      let ?m2 = "case user_message t2 of None \<Rightarrow> [] | Some m \<Rightarrow> m"
      let ?r1 = "survey_step (llm_state.truncate st1) d ?m1 (reply t1)"
      let ?r2 = "survey_step (llm_state.truncate st2) d ?m2 (reply t2)"
      have c1: "consults svs db1 sid svid t1 =
                  (if \<not> moderate_answer d (user_message t1) (on_topic t1) then Off_Topic
                   else (case ?cq of None \<Rightarrow> Not_Consulted
                         | Some cq \<Rightarrow> Returned (read_from ?r1)))"
        by (simp add: consults_def Some s1 nt f(2))
      have c2: "consults svs db2 sid svid t2 =
                  (if \<not> moderate_answer d (user_message t2) (on_topic t2) then Off_Topic
                   else (case ?cq of None \<Rightarrow> Not_Consulted
                         | Some cq \<Rightarrow> Returned (read_from ?r2)))"
        by (simp add: consults_def Some s2 nt2)
      from ta c1 c2 have ot: "moderate_answer d (user_message t1) (on_topic t1)
                            = moderate_answer d (user_message t2) (on_topic t2)"
        by (auto split: if_splits option.splits)
      show ?thesis
      proof (cases "moderate_answer d (user_message t2) (on_topic t2)")
        case False
        have "outcome (Inr (off_topic_response db1 (mark_conditionally_skipped st1 d) d))
            = outcome (Inr (off_topic_response db2 (mark_conditionally_skipped st2 d) d))"
          unfolding outcome_off_topic db em ..
        with False show ?thesis
          by (simp add: next_step_def Some s1 s2 nt nt2 ot del: outcome_simps)
      next
        case True
        show ?thesis
        proof (cases ?cq)
          case None
          have "outcome (Inr (finish db1 sid (mark_conditionally_skipped st1 d) d))
              = outcome (Inr (finish db2 sid (mark_conditionally_skipped st2 d) d))"
            unfolding outcome_finish db em ..
          with None True show ?thesis
            by (simp add: next_step_def Some s1 s2 nt nt2 ot f(2) del: outcome_simps)
        next
          case cqs: (Some cq)
          then obtain c where c: "current_question_id st2 = Some c"
            "map_of (get_question_map d) c = Some cq"
            by (cases "current_question_id st2") auto
          from ta c1 c2 True ot cqs have rf: "read_from ?r1 = read_from ?r2" by simp
          let ?a1 = "append_history (mark_conditionally_skipped st1 d) ''user'' (JStr ?m1)
                       (Some (q_id cq))"
          let ?a2 = "append_history (mark_conditionally_skipped st2 d) ''user'' (JStr ?m2)
                       (Some (q_id cq))"
          have ea: "erase_history ?a1 = erase_history ?a2" by (simp add: em)
          have n1: "next_step svs db1 sid svid t1 = interpret_reply db1 sid ?a1 d cq ?r1"
            using True ot
            by (intro next_step_active [OF Some s1 nt _ _ c(2) refl]) (simp_all add: f(2) c(1))
          have n2: "next_step svs db2 sid svid t2 = interpret_reply db2 sid ?a2 d cq ?r2"
            using True
            by (intro next_step_active [OF Some s2 nt2 _ c refl]) simp
          show ?thesis
            unfolding n1 n2 by (rule interpret_reply_agree [OF db ea rf])
        qed
      qed
    qed
  qed
qed

lemma is_asked_erase:
  "is_asked (load_state db k) q = is_asked (load_state (erase_store db) k) q"
  by (cases "load_state db k") (simp_all add: is_asked_def load_erase_store)

lemma became_asked_erase:
  "became_asked d (load_state a k) (load_state b k)
     = became_asked d (load_state (erase_store a) k) (load_state (erase_store b) k)"
  unfolding became_asked_def using is_asked_erase by presburger

lemma asked_sequence_agree:
  "same_answers svs sid svid db1 ts1 db2 ts2 \<Longrightarrow> erase_store db1 = erase_store db2 \<Longrightarrow>
   asked_sequence svs db1 sid svid ts1 = asked_sequence svs db2 sid svid ts2"
proof (induction ts1 arbitrary: ts2 db1 db2)
  case Nil
  then show ?case by (cases ts2) simp_all
next
  case (Cons t1 ts1)
  from Cons.prems(1) obtain t2 ts2' where ts2: "ts2 = t2 # ts2'" by (cases ts2) simp_all
  from Cons.prems(1) have ta: "consults svs db1 sid svid t1 = consults svs db2 sid svid t2"
    by (simp add: ts2)
  note o = next_step_agree [OF Cons.prems(2) ta]
  show ?case
  proof (cases "map_of svs svid")
    case None
    then show ?thesis by (simp add: ts2)
  next
    case (Some d)
    show ?thesis
    proof (cases "next_step svs db1 sid svid t1")
      case (Inl e)
      with o have "next_step svs db2 sid svid t2 = Inl e"
        by (cases "next_step svs db2 sid svid t2") (auto simp: outcome_def)
      with Inl show ?thesis by (simp add: Some ts2)
    next
      case (Inr p)
      obtain r1 a where p: "p = (r1, a)" by (cases p)
      from o Inr p obtain r2 b where n2: "next_step svs db2 sid svid t2 = Inr (r2, b)"
        and ab: "erase_store a = erase_store b"
        by (cases "next_step svs db2 sid svid t2") (auto simp: outcome_def)
      from Cons.prems(1) Inr p n2 have sa: "same_answers svs sid svid a ts1 b ts2'"
        by (simp add: ts2)
      have "became_asked d (load_state db1 sid) (load_state a sid)
          = became_asked d (load_state db2 sid) (load_state b sid)"
        unfolding became_asked_erase [of d db1 sid a] became_asked_erase [of d db2 sid b]
          Cons.prems(2) ab ..
      with Cons.IH [OF sa ab] show ?thesis by (simp add: Some Inr p n2 ts2)
    qed
  qed
qed

lemma status_update_same:
  "(st\<lparr>question_status := x\<rparr> = st) = (x = question_status st)"
proof
  assume "st\<lparr>question_status := x\<rparr> = st"
  then have "question_status (st\<lparr>question_status := x\<rparr>) = question_status st" by simp
  then show "x = question_status st" by simp
next
  assume "x = question_status st"
  then show "st\<lparr>question_status := x\<rparr> = st" by simp
qed

lemma map_same_iff: "(map f xs = xs) = (\<forall>x \<in> set xs. f x = x)"
  by (induction xs) auto

lemma marked_iff:
  "marked d st \<longleftrightarrow>
     (\<forall>(k, s) \<in> set (question_status st). remark d (answers st) k s = s)"
  unfolding marked_def mark_alt status_update_same map_same_iff
  by (auto simp: case_prod_unfold)

lemma marked_mark: "marked d (mark_conditionally_skipped st d)"
  by (simp add: marked_def mark_idem)

lemma marked_append [simp]: "marked d (append_history st r c q) = marked d st"
  by (simp add: marked_iff)

lemma marked_terminated [simp]: "marked d (st\<lparr>terminated := b\<rparr>) = marked d st"
  by (simp add: marked_iff)

lemma marked_current [simp]: "marked d (st\<lparr>current_question_id := c\<rparr>) = marked d st"
  by (simp add: marked_iff)

lemma set_update_subset: "set (AList.update k v al) \<subseteq> insert (k, v) (set al)"
  by (induction al) auto

lemma marked_update:
  assumes "marked d st" "s \<noteq> Unasked"
  shows "marked d (st\<lparr>question_status := AList.update k s (question_status st)\<rparr>)"
proof -
  have "remark d (answers st) a b = b"
    if "(a, b) \<in> set (AList.update k s (question_status st))" for a b
  proof (cases "(a, b) = (k, s)")
    case True
    with assms(2) show ?thesis by (simp add: remark_def)
  next
    case False
    with that set_update_subset [of k s "question_status st"]
    have "(a, b) \<in> set (question_status st)" by blast
    with assms(1) show ?thesis by (auto simp: marked_iff)
  qed
  then show ?thesis by (auto simp: marked_iff)
qed

lemma next_scan_marked: "marked d st \<Longrightarrow> marked d (snd (next_scan qs st))"
proof (induction qs arbitrary: st)
  case Nil
  then show ?case by simp
next
  case (Cons q qs)
  have "marked d (st\<lparr>question_status := AList.update (q_id q) Skipped (question_status st)\<rparr>)"
    using Cons.prems by (rule marked_update) simp
  from Cons.IH [OF this] Cons.IH [OF Cons.prems] Cons.prems
  show ?case by (simp add: Let_def)
qed

lemma eligible_scan_marked: "marked d st \<Longrightarrow> marked d (snd (eligible_scan qs st))"
proof (induction qs arbitrary: st)
  case Nil
  then show ?case by simp
next
  case (Cons q qs)
  have "marked d (st\<lparr>question_status := AList.update (q_id q) Skipped (question_status st)\<rparr>)"
    using Cons.prems by (rule marked_update) simp
  from Cons.IH [OF this] Cons.IH [OF Cons.prems] Cons.prems
  show ?case by (simp add: Let_def case_prod_unfold)
qed

lemma deterministic_next_marked: "marked d (snd (deterministic_next_question st d))"
  by (simp add: deterministic_next_question_def Let_def next_scan_marked marked_mark)

lemma eligible_questions_marked: "marked d (snd (eligible_questions st d))"
  by (simp add: eligible_questions_def eligible_scan_marked marked_mark)

lemma advance_marked:
  assumes "advance db sid s d resp = Inr (r, db')"
  shows "\<exists>st'. db' = save_state db st' \<and> session_id st' = session_id s \<and> marked d st'"
proof -
  define s2 where "s2 = snd (deterministic_next_question (snd (eligible_questions s d)) d)"
  have m: "marked d s2" unfolding s2_def by (rule deterministic_next_marked)
  have f: "session_id s2 = session_id s" by (simp add: s2_def)
  define nq where "nq = (case proposal_of resp of
                  JStr p \<Rightarrow>
                    if p \<notin> set (map q_id (fst (eligible_questions s d)))
                    then fst (deterministic_next_question (snd (eligible_questions s d)) d)
                    else Some p
                | _ \<Rightarrow> fst (deterministic_next_question (snd (eligible_questions s d)) d))"
  have "advance db sid s d resp =
          (if no_question nq then Inr (finish db sid s2 d) else ask db sid s2 d resp nq)"
    unfolding advance_unfold Let_def nq_def s2_def by simp
  with assms have
    adv: "(if no_question nq then Inr (finish db sid s2 d) else ask db sid s2 d resp nq) = Inr (r, db')"
    by simp
  show ?thesis
  proof (cases "no_question nq")
    case True
    with adv have "db' = save_state db (append_history (s2\<lparr>terminated := True\<rparr>) ''assistant''
                       (JStr (end_message_of d)) None)"
      by (simp add: finish_eq)
    with m f show ?thesis by (intro exI [of _ "append_history (s2\<lparr>terminated := True\<rparr>) ''assistant''
                       (JStr (end_message_of d)) None"]) simp
  next
    case False
    with adv obtain q where q: "map_of (get_question_map d) (the nq) = Some q"
      by (cases "map_of (get_question_map d) (the nq)") (auto simp: ask_def Let_def)
    let ?txt = "if \<not> truthy (case resp of JDict kvs \<Rightarrow>
                         (case map_of kvs ''assistant_question_text'' of
                            None \<Rightarrow> JNull
                          | Some v \<Rightarrow> v)
                     | _ \<Rightarrow> JNull) then JStr (q_text q)
                else (case resp of JDict kvs \<Rightarrow>
                         (case map_of kvs ''assistant_question_text'' of
                            None \<Rightarrow> JNull
                          | Some v \<Rightarrow> v)
                     | _ \<Rightarrow> JNull)"
    let ?st' = "append_history
                  (s2\<lparr>current_question_id := nq,
                      question_status := AList.update (the nq) Asked (question_status s2)\<rparr>)
                  ''assistant'' ?txt nq"
    from adv False q have "db' = save_state db ?st'"
      by (simp add: ask_def Let_def)
    moreover have "marked d ?st'"
      using marked_update [OF m, of Asked "the nq"] by (simp add: marked_iff)
    ultimately show ?thesis using f by (intro exI [of _ ?st']) simp
  qed
qed

lemma interpret_reply_marked:
  assumes "interpret_reply db sid st d cq resp = Inr (r, db')" "marked d st"
  shows "\<exists>st'. db' = save_state db st' \<and> session_id st' = session_id st \<and> marked d st'"
proof -
  from assms(1) obtain v where v: "value_read resp = Inr v"
    by (cases "value_read resp") (auto simp: interpret_reply_reads)
  from assms(1) v obtain fl where fl: "flag_read resp = Inr fl"
    by (cases "flag_read resp") (auto simp: interpret_reply_reads)
  from flag_read_dict [OF fl] obtain c where c: "dict_get resp ''clarification_question'' = Inr c"
    by blast
  show ?thesis
  proof (cases "fl \<or> \<not> fst (snd (normalize_answer cq v))")
    case True
    with assms(1) have "db' = save_state db (append_history st ''assistant''
                           (py_or c (JStr (q_text cq))) (Some (q_id cq)))"
      by (simp add: interpret_reply_reads v fl c handle_clarification_eq)
    with assms(2) show ?thesis
      by (intro exI [of _ "append_history st ''assistant''
                           (py_or c (JStr (q_text cq))) (Some (q_id cq))"]) simp
  next
    case False
    with assms(1) have "advance db sid (store_answer st cq (fst (normalize_answer cq v))) d resp
                          = Inr (r, db')"
      by (simp add: interpret_reply_reads v fl)
    from advance_marked [OF this] show ?thesis by simp
  qed
qed

lemma begin_session_marked:
  assumes "map_of svs svid = Some d" "begin_session svs db sid svid = Inr (r, db')"
  shows "\<exists>st'. db' = save_state db st' \<and> session_id st' = sid \<and> marked d st'"
proof -
  define st where "st = snd (deterministic_next_question (initial_state sid svid d) d)"
  define nq where "nq = fst (deterministic_next_question (initial_state sid svid d) d)"
  have n: "deterministic_next_question (initial_state sid svid d) d = (nq, st)"
    by (simp add: st_def nq_def)
  have m: "marked d st" unfolding st_def by (rule deterministic_next_marked)
  have f: "session_id st = sid" by (simp add: st_def initial_state_def)
  show ?thesis
  proof (cases "no_question nq")
    case True
    with assms have "db' = save_state db (append_history (st\<lparr>terminated := True\<rparr>) ''assistant''
                       (JStr (end_message_of d)) None)"
      by (simp add: begin_session_def n Let_def)
    with m f show ?thesis
      by (intro exI [of _ "append_history (st\<lparr>terminated := True\<rparr>) ''assistant''
                       (JStr (end_message_of d)) None"]) simp
  next
    case False
    then obtain i where i: "nq = Some i" by (cases nq) (auto simp: no_question_def)
    from assms False obtain q where q: "map_of (get_question_map d) i = Some q"
      by (cases "map_of (get_question_map d) i") (auto simp: begin_session_def n i Let_def)
    let ?st' = "append_history
                 (st\<lparr>current_question_id := Some i,
                     question_status := AList.update i Asked (question_status st)\<rparr>)
                 ''assistant'' (JStr (render_intro_and_question d q)) (Some i)"
    from assms False have "db' = save_state db ?st'"
      by (simp add: begin_session_def n i q Let_def)
    moreover have "marked d ?st'"
      using marked_update [OF m, of Asked i] by (simp add: marked_iff)
    ultimately show ?thesis using f by (intro exI [of _ ?st']) simp
  qed
qed

lemma next_step_marked:
  assumes d: "map_of svs svid = Some d"
    and step: "next_step svs db sid svid t = Inr (r, db')"
    and pre: "\<And>st. load_state db sid = Some st \<Longrightarrow> session_id st = sid \<and> marked d st"
  shows "\<exists>st'. load_state db' sid = Some st' \<and> session_id st' = sid \<and> marked d st'"
proof (cases "load_state db sid")
  case None
  with step d have "begin_session svs db sid svid = Inr (r, db')"
    by (simp add: next_step_def)
  from begin_session_marked [OF d this] obtain st' where
    "db' = save_state db st'" "session_id st' = sid" "marked d st'" by blast
  then show ?thesis using load_save [of db st'] by auto
next
  case (Some st)
  from pre [OF Some] have sid: "session_id st = sid" and m: "marked d st" by simp_all
  show ?thesis
  proof (cases "terminated st")
    case True
    with next_step_terminated [OF d Some True, of t] step have "db' = db" by simp
    with Some sid m show ?thesis by simp
  next
    case nt: False
    show ?thesis
    proof (cases "moderate_answer d (user_message t) (on_topic t)")
      case False
      let ?st' = "append_history (mark_conditionally_skipped st d) ''assistant''
                (JStr (off_topic_reminder d)) (current_question_id st)"
      from next_step_off_topic [OF d Some nt False] step
      have "db' = save_state db ?st'"
        by (simp add: off_topic_response_def Let_def)
      then have "load_state db' sid = Some ?st'"
        using load_save [of db ?st'] by (simp add: sid)
      then show ?thesis using sid by (simp add: marked_mark)
    next
      case True
      show ?thesis
      proof (cases "case current_question_id st of None \<Rightarrow> None
                    | Some c \<Rightarrow> map_of (get_question_map d) c")
        case None
        let ?st' = "append_history ((mark_conditionally_skipped st d)\<lparr>terminated := True\<rparr>)
                    ''assistant'' (JStr (end_message_of d)) None"
        from step d Some nt True None
        have "db' = save_state db ?st'"
          by (simp add: next_step_def finish_eq Let_def)
        then have "load_state db' sid = Some ?st'"
          using load_save [of db ?st'] by (simp add: sid)
        then show ?thesis using sid by (simp add: marked_mark)
      next
        case cqs: (Some cq)
        then obtain c where c: "current_question_id st = Some c" "map_of (get_question_map d) c = Some cq"
          by (cases "current_question_id st") auto
        let ?msg = "case user_message t of None \<Rightarrow> [] | Some m \<Rightarrow> m"
        let ?st1 = "append_history (mark_conditionally_skipped st d) ''user'' (JStr ?msg) (Some (q_id cq))"
        from next_step_active [OF d Some nt True c refl] step
        have ir: "interpret_reply db sid ?st1 d cq (survey_step (llm_state.truncate st) d ?msg (reply t))
                    = Inr (r, db')"
          by simp
        have "marked d ?st1" by (simp add: marked_mark)
        from interpret_reply_marked [OF ir this]
        obtain st' where "db' = save_state db st'" "session_id st' = session_id ?st1" "marked d st'"
          by blast
        then show ?thesis using load_save [of db st'] sid by auto
      qed
    qed
  qed
qed

lemma run_marked:
  assumes d: "map_of svs svid = Some d"
  shows "run svs db sid svid ts = Inr (rs, db') \<Longrightarrow>
         (\<And>st. load_state db sid = Some st \<Longrightarrow> session_id st = sid \<and> marked d st) \<Longrightarrow>
         load_state db' sid = Some st' \<Longrightarrow> session_id st' = sid \<and> marked d st'"
proof (induction ts arbitrary: db rs)
  case Nil
  then show ?case by simp
next
  case (Cons t ts)
  from Cons.prems(1) obtain r db1 rs1 where
    s: "next_step svs db sid svid t = Inr (r, db1)" and
    r: "run svs db1 sid svid ts = Inr (rs1, db')"
    by (auto split: sum.splits prod.splits)
  from next_step_marked [OF d s Cons.prems(2)]
  obtain st1 where "load_state db1 sid = Some st1" "session_id st1 = sid" "marked d st1"
    by blast
  then have "\<And>st. load_state db1 sid = Some st \<Longrightarrow> session_id st = sid \<and> marked d st"
    by simp
  from Cons.IH [OF r this Cons.prems(3)] show ?case .
qed

section \<open>Termination is absorbing\<close>

text \<open>
  Claim C9. Once the stored state of a session has \<^verbatim>\<open>terminated\<close> set, a
  \<^verbatim>\<open>next_step\<close> call with any message, moderation verdict and reply returns the end
  message and leaves the store as it was; so does every sequence of such calls, and the
  transcript in particular does not grow.
\<close>

theorem terminated_next_step_idempotent:
  assumes "map_of svs svid = Some d" "load_state db sid = Some st" "terminated st"
  shows "next_step svs db sid svid t =
           Inr (\<lparr>res_session_id = sid, res_interview_id = None,
                 message = JStr (end_message_of d)\<rparr>, db)
       \<and> run svs db sid svid ts =
           Inr (replicate (length ts)
                  \<lparr>res_session_id = sid, res_interview_id = None,
                   message = JStr (end_message_of d)\<rparr>, db)"
proof
  show "next_step svs db sid svid t =
           Inr (\<lparr>res_session_id = sid, res_interview_id = None,
                 message = JStr (end_message_of d)\<rparr>, db)"
    using assms by (rule next_step_terminated)
  show "run svs db sid svid ts =
           Inr (replicate (length ts)
                  \<lparr>res_session_id = sid, res_interview_id = None,
                   message = JStr (end_message_of d)\<rparr>, db)"
    using assms
    by (induction ts) (simp_all add: next_step_terminated [of svs svid d db sid st])
qed

theorem terminated_next_step_idempotent_witness:
  "next_step SURVEYS ended_db ''s1'' ''CULTURE_DISCRIMINATION'' (answer_turn ''Yes'' JNull) =
     Inr (\<lparr>res_session_id = ''s1'', res_interview_id = None,
           message = JStr ''The survey is complete. Please proceed to the next page.---END---''\<rparr>,
          ended_db)
   \<and> run SURVEYS ended_db ''s1'' ''CULTURE_DISCRIMINATION''
         [answer_turn ''Yes'' JNull, answer_turn ''No'' (JStr ''Q2'')] =
     Inr ([\<lparr>res_session_id = ''s1'', res_interview_id = None,
            message = JStr ''The survey is complete. Please proceed to the next page.---END---''\<rparr>,
           \<lparr>res_session_id = ''s1'', res_interview_id = None,
            message = JStr ''The survey is complete. Please proceed to the next page.---END---''\<rparr>],
          ended_db)"
proof -
  have h1: "map_of SURVEYS ''CULTURE_DISCRIMINATION'' = Some CULTURE_DISCRIMINATION"
    by (simp add: SURVEYS_def)
  have h2: "load_state ended_db ''s1'' =
              Some ((initial_state ''s1'' ''CULTURE_DISCRIMINATION'' CULTURE_DISCRIMINATION)
                      \<lparr>terminated := True\<rparr>)"
    by (simp add: ended_db_def load_state_def)
  have h3: "terminated ((initial_state ''s1'' ''CULTURE_DISCRIMINATION'' CULTURE_DISCRIMINATION)
                      \<lparr>terminated := True\<rparr>)"
    by simp
  have e: "end_message_of CULTURE_DISCRIMINATION =
             ''The survey is complete. Please proceed to the next page.---END---''"
    by (simp add: end_message_of_def CULTURE_DISCRIMINATION_def)
  show ?thesis
    using terminated_next_step_idempotent
        [of SURVEYS "''CULTURE_DISCRIMINATION''" CULTURE_DISCRIMINATION ended_db "''s1''"
        "(initial_state ''s1'' ''CULTURE_DISCRIMINATION'' CULTURE_DISCRIMINATION)
           \<lparr>terminated := True\<rparr>"
        "answer_turn ''Yes'' JNull" "[answer_turn ''Yes'' JNull, answer_turn ''No'' (JStr ''Q2'')]",
        OF h1 h2 h3]
    unfolding e by (simp del: run.simps)
qed

section \<open>Normalising a multiple-choice answer\<close>

text \<open>
  Claim C6, as the code has it. For a \<^verbatim>\<open>multi_choice\<close> question and a raw value
  other than the sentinel string \<^verbatim>\<open>SKIP\<close> (which line 100 returns as it is for every
  type of question): a string is split at commas into trimmed tokens, those that are
  empty once trimmed being dropped; the token list, or a raw value that is a list
  already, is returned as valid exactly when each of its elements is one of the
  question's options, which holds of the empty list; otherwise, and for a raw value
  that is neither a string nor a list, the result is the empty list, invalid, with
  clarification flagged. Each token is non-empty, has no comma, and neither starts nor
  ends with whitespace.
\<close>

theorem multi_choice_normalize:
  assumes "q_type q = ''multi_choice''" and "raw \<noteq> JStr ''SKIP''"
  shows "normalize_answer q raw =
           (case raw of
              JStr s \<Rightarrow>
                if set (split_tokens s) \<subseteq> set (q_options q)
                then (JList (map JStr (split_tokens s)), True, False)
                else (JList [], False, True)
            | JList xs \<Rightarrow>
                if set xs \<subseteq> JStr ` set (q_options q) then (JList xs, True, False)
                else (JList [], False, True)
            | _ \<Rightarrow> (JList [], False, True))
       \<and> (\<forall>s t. raw = JStr s \<and> t \<in> set (split_tokens s) \<longrightarrow>
             t \<noteq> [] \<and> \<not> is_space (hd t) \<and> \<not> is_space (last t) \<and> CHR '','' \<notin> set t)"
proof
  show "normalize_answer q raw =
           (case raw of
              JStr s \<Rightarrow>
                if set (split_tokens s) \<subseteq> set (q_options q)
                then (JList (map JStr (split_tokens s)), True, False)
                else (JList [], False, True)
            | JList xs \<Rightarrow>
                if set xs \<subseteq> JStr ` set (q_options q) then (JList xs, True, False)
                else (JList [], False, True)
            | _ \<Rightarrow> (JList [], False, True))"
    using assms
    by (auto simp: normalize_answer_def in_options_def list_all_iff Let_def split: json.splits)
  show "\<forall>s t. raw = JStr s \<and> t \<in> set (split_tokens s) \<longrightarrow>
             t \<noteq> [] \<and> \<not> is_space (hd t) \<and> \<not> is_space (last t) \<and> CHR '','' \<notin> set t"
    using split_tokens_trimmed by blast
qed

text \<open>
  The example of the specification, on question Q2 of the repository's survey; the same
  answer with a no-break space before the comma and a next-line character at the end;
  and an answer with a token that is no option.
\<close>

theorem multi_choice_normalize_witness:
  "normalize_answer Q2 (JStr ''Manager, Colleague'') =
     (JList [JStr ''Manager'', JStr ''Colleague''], True, False)
   \<and> normalize_answer Q2 (JStr spaced_answer) =
     (JList [JStr ''Manager'', JStr ''Colleague''], True, False)
   \<and> normalize_answer Q2 (JStr ''Manager, Boss'') = (JList [], False, True)"
proof -
  have h1: "q_type Q2 = ''multi_choice''" by (simp add: Q2_def)
  have h2: "JStr ''Manager, Colleague'' \<noteq> JStr ''SKIP''" by simp
  have h3: "JStr spaced_answer \<noteq> JStr ''SKIP''"
    by (simp add: spaced_answer_def)
  have h4: "JStr ''Manager, Boss'' \<noteq> JStr ''SKIP''" by simp
  have t: "split_tokens ''Manager, Colleague'' = [''Manager'', ''Colleague'']"
    by code_simp
  have u: "split_tokens spaced_answer = [''Manager'', ''Colleague'']"
    by code_simp
  have w: "split_tokens ''Manager, Boss'' = [''Manager'', ''Boss'']"
    by code_simp
  have o: "q_options Q2 = [''Manager'', ''Colleague'', ''Customer/Client'',
                           ''Policy/Process'', ''Other'', ''Prefer not to say'']"
    by (simp add: Q2_def)
  from multi_choice_normalize [OF h1 h2] multi_choice_normalize [OF h1 h3]
    multi_choice_normalize [OF h1 h4]
  show ?thesis
    by (simp add: t u w o)
qed

text \<open>
  The claim as written asks for a list that is not empty. The empty string, a string of
  commas and blanks, and the empty list all normalise to the empty list, which is
  returned as valid with no clarification: there is no token that fails the test of
  line 109. The sentinel is not concerned: it is not among the options of Q2 and the
  rule of line 100 returns it before the type is looked at.
\<close>

theorem multi_choice_empty_list_counterexample:
  "q_type Q2 = ''multi_choice''
   \<and> normalize_answer Q2 (JStr []) = (JList [], True, False)
   \<and> normalize_answer Q2 (JStr '' , ,'') = (JList [], True, False)
   \<and> normalize_answer Q2 (JList []) = (JList [], True, False)"
  by (simp add: normalize_answer_def Q2_def split_tokens_def strip_def is_space_def)

lemma multi_choice_skip_sentinel:
  "normalize_answer Q2 (JStr ''SKIP'') = (JStr ''SKIP'', True, False)
   \<and> ''SKIP'' \<notin> set (q_options Q2)"
  by (simp add: normalize_answer_def Q2_def)

section \<open>Replies the engine does not survive\<close>

text \<open>
  Claim C1 asks that no reply of the agent makes \<^verbatim>\<open>next_step\<close> raise. On the
  repository's survey, after the first contact has asked Q1, a reply that is a JSON
  object with \<^verbatim>\<open>"parsed_answer": null\<close> raises \<^verbatim>\<open>AttributeError\<close> at line 187
  (\<^verbatim>\<open>parsed_answer.get\<close>), and a reply that is a JSON list raises it at line 189
  (\<^verbatim>\<open>response.get\<close>): nothing is returned and nothing is stored.
\<close>

theorem next_step_raises_on_malformed_reply:
  "run SURVEYS [] ''s1'' ''CULTURE_DISCRIMINATION'' [first_contact, null_answer_turn]
     = Inl AttributeError
   \<and> run SURVEYS [] ''s1'' ''CULTURE_DISCRIMINATION'' [first_contact, list_reply_turn]
     = Inl AttributeError"
  by code_simp

section \<open>Off-topic messages\<close>

text \<open>
  Claim C7, as the code has it. The moderation check is consulted only when the
  definition sets \<^verbatim>\<open>moderate_answers\<close> and the caller's message is present. On a
  session that has not terminated, when the check then reports the message off-topic,
  the turn appends the off-topic reminder to the transcript under the current question
  id, saves the state and returns the reminder; no answer is recorded and the current
  question id stays. The marking of line 168 is saved with the state: a status changes
  only from \<^verbatim>\<open>unasked\<close> to \<^verbatim>\<open>skipped\<close>, for a question whose condition fails.
  On a session that the engine has started and saved itself (the store is the one a
  sequence of calls has left, from a store that did not hold the session), no status
  changes at all: every state the engine saves is marked (\<open>run_marked\<close>).
\<close>

theorem off_topic_turn_keeps_question:
  assumes "map_of svs svid = Some d" "load_state db sid = Some st" "\<not> terminated st"
    and "user_message t = Some m" "moderate_answers d" "\<not> on_topic t"
    and "st' = append_history (mark_conditionally_skipped st d) ''assistant''
                 (JStr (off_topic_reminder d)) (current_question_id st)"
  shows "(\<forall>v. moderate_answer d (user_message t) v = v)
       \<and> next_step svs db sid svid t =
           Inr (\<lparr>res_session_id = session_id st, res_interview_id = None,
                 message = JStr (off_topic_reminder d)\<rparr>, save_state db st')
       \<and> load_state (save_state db st') (session_id st) = Some st'
       \<and> history st' = history st @
             [\<lparr>role = ''assistant'', content = JStr (off_topic_reminder d),
               question_id = current_question_id st\<rparr>]
       \<and> answers st' = answers st
       \<and> current_question_id st' = current_question_id st
       \<and> \<not> terminated st'
       \<and> (\<forall>k. map_of (question_status st') k = map_of (question_status st) k
              \<or> map_of (question_status st) k = Some Unasked
                \<and> map_of (question_status st') k = Some Skipped
                \<and> (\<exists>q. map_of (get_question_map d) k = Some q
                         \<and> \<not> is_condition_met q (answers st)))
       \<and> (\<forall>db0 ts rs. load_state db0 sid = None \<and> run svs db0 sid svid ts = Inr (rs, db)
              \<longrightarrow> question_status st' = question_status st)"
proof -
  have mod: "\<forall>v. moderate_answer d (user_message t) v = v"
    using assms(4,5) by (simp add: moderate_answer_def)
  then have "\<not> moderate_answer d (user_message t) (on_topic t)"
    using assms(6) by simp
  from next_step_off_topic [of svs svid d db sid st t, OF assms(1-3) this]
  have step: "next_step svs db sid svid t =
           Inr (\<lparr>res_session_id = session_id st, res_interview_id = None,
                 message = JStr (off_topic_reminder d)\<rparr>, save_state db st')"
    by (simp add: off_topic_response_def assms(7) Let_def)
  have sid: "session_id st' = session_id st" by (simp add: assms(7))
  have load: "load_state (save_state db st') (session_id st) = Some st'"
    using load_save [of db st'] by (simp add: sid)
  have stat: "map_of (question_status st') k = map_of (question_status st) k
              \<or> map_of (question_status st) k = Some Unasked
                \<and> map_of (question_status st') k = Some Skipped
                \<and> (\<exists>q. map_of (get_question_map d) k = Some q
                         \<and> \<not> is_condition_met q (answers st))" for k
    by (cases "map_of (question_status st) k")
       (auto simp: assms(7) mark_status remark_def split: option.splits)
  have saved: "question_status st' = question_status st"
    if "load_state db0 sid = None" "run svs db0 sid svid ts = Inr (rs, db)" for db0 ts rs
  proof -
    from that(1) have "\<And>s. load_state db0 sid = Some s \<Longrightarrow> session_id s = sid \<and> marked d s"
      by simp
    from run_marked [OF assms(1) that(2) this assms(2)] have "marked d st" by simp
    then show ?thesis by (simp add: assms(7) marked_def)
  qed
  have h: "history st' = history st @
             [\<lparr>role = ''assistant'', content = JStr (off_topic_reminder d),
               question_id = current_question_id st\<rparr>]"
    and a: "answers st' = answers st"
    and c: "current_question_id st' = current_question_id st"
    and nt: "\<not> terminated st'"
    using assms(3) by (simp_all add: assms(7))
  have stat': "\<forall>k. map_of (question_status st') k = map_of (question_status st) k
              \<or> map_of (question_status st) k = Some Unasked
                \<and> map_of (question_status st') k = Some Skipped
                \<and> (\<exists>q. map_of (get_question_map d) k = Some q
                         \<and> \<not> is_condition_met q (answers st))"
    using stat by blast
  have saved': "\<forall>db0 ts rs. load_state db0 sid = None \<and> run svs db0 sid svid ts = Inr (rs, db)
              \<longrightarrow> question_status st' = question_status st"
    using saved by blast
  show ?thesis
    by (intro conjI mod step load h a c nt stat' saved')
qed

theorem off_topic_turn_keeps_question_witness:
  "run MODERATED [] ''s1'' ''CULTURE_DISCRIMINATION'' [first_contact] =
     Inr ([\<lparr>res_session_id = ''s1'', res_interview_id = Some ''CULTURE_DISCRIMINATION'',
            message = JStr (render_intro_and_question CULTURE_DISCRIMINATION Q1)\<rparr>], started_db)
   \<and> next_step MODERATED started_db ''s1'' ''CULTURE_DISCRIMINATION'' off_topic_turn =
     Inr (\<lparr>res_session_id = ''s1'', res_interview_id = None,
           message = JStr (off_topic_reminder CULTURE_DISCRIMINATION)\<rparr>,
          [(''s1'', append_history started_state ''assistant''
                     (JStr (off_topic_reminder CULTURE_DISCRIMINATION)) (Some ''Q1''))])"
proof -
  let ?d = "CULTURE_DISCRIMINATION\<lparr>moderate_answers := True\<rparr>"
  let ?st' = "append_history (mark_conditionally_skipped started_state ?d) ''assistant''
                 (JStr (off_topic_reminder ?d)) (current_question_id started_state)"
  have h1: "map_of MODERATED ''CULTURE_DISCRIMINATION'' = Some ?d" by (simp add: MODERATED_def)
  have h2: "load_state started_db ''s1'' = Some started_state"
    by (simp add: started_db_def load_state_def)
  have h3: "\<not> terminated started_state" by (simp add: started_state_def)
  have h4: "user_message off_topic_turn = Some ''Yes''"
    by (simp add: off_topic_turn_def answer_turn_def)
  have h5: "moderate_answers ?d" by simp
  have h6: "\<not> on_topic off_topic_turn" by (simp add: off_topic_turn_def)
  have e: "load_state [] ''s1'' = None" by (simp add: load_state_def)
  have r: "run MODERATED [] ''s1'' ''CULTURE_DISCRIMINATION'' [first_contact] =
     Inr ([\<lparr>res_session_id = ''s1'', res_interview_id = Some ''CULTURE_DISCRIMINATION'',
            message = JStr (render_intro_and_question CULTURE_DISCRIMINATION Q1)\<rparr>], started_db)"
    by code_simp
  from off_topic_turn_keeps_question [OF h1 h2 h3 h4 h5 h6 refl]
  have step: "next_step MODERATED started_db ''s1'' ''CULTURE_DISCRIMINATION'' off_topic_turn =
           Inr (\<lparr>res_session_id = session_id started_state, res_interview_id = None,
                 message = JStr (off_topic_reminder ?d)\<rparr>, save_state started_db ?st')"
    and saved: "\<And>db0 ts rs. load_state db0 ''s1'' = None \<Longrightarrow>
                  run MODERATED db0 ''s1'' ''CULTURE_DISCRIMINATION'' ts = Inr (rs, started_db) \<Longrightarrow>
                  question_status ?st' = question_status started_state"
    by blast+
  from saved [OF e r] have q: "question_status (mark_conditionally_skipped started_state ?d)
                                = question_status started_state"
    by simp
  have m: "mark_conditionally_skipped started_state ?d = started_state"
    using q by (simp add: mark_conditionally_skipped_def)
  have rem: "off_topic_reminder ?d = off_topic_reminder CULTURE_DISCRIMINATION"
    by (simp add: off_topic_reminder_def)
  have c: "current_question_id started_state = Some ''Q1''" by (simp add: started_state_def)
  have s: "save_state started_db
             (append_history started_state ''assistant''
                (JStr (off_topic_reminder CULTURE_DISCRIMINATION)) (Some ''Q1'')) =
           [(''s1'', append_history started_state ''assistant''
                     (JStr (off_topic_reminder CULTURE_DISCRIMINATION)) (Some ''Q1''))]"
    by (simp add: save_state_def started_db_def started_state_def)
  have i: "session_id started_state = ''s1''" by (simp add: started_state_def)
  from step r show ?thesis by (simp only: m rem c s i simp_thms)
qed

text \<open>
  The claim as written fails twice. On the repository's survey, which does not set
  \<^verbatim>\<open>moderate_answers\<close>, a message the check would report off-topic is handed to the
  agent, the answer is stored and the session moves on to Q3. And with moderation on, on
  a stored state in which Q2 is still \<^verbatim>\<open>unasked\<close> while its condition fails, the
  off-topic turn saves Q2 as \<^verbatim>\<open>skipped\<close>.
\<close>

theorem unmoderated_off_topic_counterexample:
  "\<not> moderate_answers CULTURE_DISCRIMINATION
   \<and> \<not> on_topic off_topic_turn
   \<and> \<not> isl (next_step SURVEYS started_db ''s1'' ''CULTURE_DISCRIMINATION'' off_topic_turn)
   \<and> message (fst (projr (next_step SURVEYS started_db ''s1'' ''CULTURE_DISCRIMINATION''
                              off_topic_turn))) = JStr (q_text Q3)
   \<and> map_option answers
        (load_state (snd (projr (next_step SURVEYS started_db ''s1'' ''CULTURE_DISCRIMINATION''
                                   off_topic_turn))) ''s1'') = Some [(''q1'', JStr ''Yes'')]
   \<and> map_option current_question_id
        (load_state (snd (projr (next_step SURVEYS started_db ''s1'' ''CULTURE_DISCRIMINATION''
                                   off_topic_turn))) ''s1'') = Some (Some ''Q3'')
   \<and> map_option (moderate_answers) (map_of MODERATED ''CULTURE_DISCRIMINATION'') = Some True
   \<and> map_option question_status (load_state unmarked_db ''s1'') =
        Some [(''Q1'', Asked), (''Q2'', Unasked), (''Q3'', Unasked), (''Q4'', Skipped),
              (''Q5'', Unasked), (''Q6'', Unasked), (''Q7'', Unasked)]
   \<and> message (fst (projr (next_step MODERATED unmarked_db ''s1'' ''CULTURE_DISCRIMINATION''
                              off_topic_turn))) = JStr (off_topic_reminder CULTURE_DISCRIMINATION)
   \<and> map_option question_status
        (load_state (snd (projr (next_step MODERATED unmarked_db ''s1'' ''CULTURE_DISCRIMINATION''
                                   off_topic_turn))) ''s1'') =
        Some [(''Q1'', Asked), (''Q2'', Skipped), (''Q3'', Unasked), (''Q4'', Skipped),
              (''Q5'', Unasked), (''Q6'', Unasked), (''Q7'', Unasked)]"
  by code_simp

section \<open>Invalid answers and clarification turns\<close>

text \<open>
  What the engine does right. In a turn that reaches the agent and whose reply is a
  dict with a readable \<^verbatim>\<open>parsed_answer\<close>: when the normaliser reports the value
  invalid, or the reply flags clarification, the turn is a clarification turn whatever
  the other of the two says. It returns the reply's clarification text (the question's
  own text when there is none), appends the message and that text to the transcript and
  saves the state; the answers are the ones from before (nothing invalid is stored), the
  current question id is the one from before, and so is its status (it is
  \<^verbatim>\<open>asked\<close>; only an \<^verbatim>\<open>unasked\<close> status can change, through the marking of
  line 168).
\<close>

lemma dict_reply_turn_clarifies:
  assumes "map_of svs svid = Some d" "load_state db sid = Some st" "\<not> terminated st"
    and "moderate_answer d (user_message t) (on_topic t)"
    and "current_question_id st = Some c" "map_of (get_question_map d) c = Some cq"
    and "msg = (case user_message t of None \<Rightarrow> [] | Some m \<Rightarrow> m)"
    and "survey_step (llm_state.truncate st) d msg (reply t) = JDict kvs"
    and "dict_get (case map_of kvs ''parsed_answer'' of None \<Rightarrow> JDict [] | Some a \<Rightarrow> a) ''value''
           = Inr v"
    and "normalize_answer cq v = (n, valid, nc)"
    and "\<not> valid \<or> truthy (case map_of kvs ''need_clarification'' of None \<Rightarrow> JNull | Some f \<Rightarrow> f)"
    and "txt = py_or (case map_of kvs ''clarification_question'' of None \<Rightarrow> JNull | Some x \<Rightarrow> x)
                 (JStr (q_text cq))"
    and "st' = append_history
                 (append_history (mark_conditionally_skipped st d) ''user'' (JStr msg) (Some c))
                 ''assistant'' txt (Some c)"
  shows "next_step svs db sid svid t =
           Inr (\<lparr>res_session_id = session_id st, res_interview_id = None, message = txt\<rparr>,
                save_state db st')
       \<and> load_state (save_state db st') (session_id st) = Some st'
       \<and> current_question_id st' = Some c
       \<and> answers st' = answers st
       \<and> \<not> terminated st'
       \<and> (map_of (question_status st) c \<noteq> Some Unasked \<longrightarrow>
            map_of (question_status st') c = map_of (question_status st) c)"
proof -
  have c: "q_id cq = c" using question_map_SomeD [OF assms(6)] by simp
  have "next_step svs db sid svid t =
          interpret_reply db sid
            (append_history (mark_conditionally_skipped st d) ''user'' (JStr msg) (Some (q_id cq)))
            d cq (JDict kvs)"
    using next_step_active [OF assms(1-7)] by (simp add: assms(8))
  also have "\<dots> = Inr (handle_clarification db
            (append_history (mark_conditionally_skipped st d) ''user'' (JStr msg) (Some (q_id cq)))
            (q_id cq) txt)"
    unfolding assms(12) by (rule interpret_reply_clarify [OF assms(9-11)])
  finally have step: "next_step svs db sid svid t =
           Inr (\<lparr>res_session_id = session_id st, res_interview_id = None, message = txt\<rparr>,
                save_state db st')"
    by (simp add: handle_clarification_eq c assms(13))
  have sid: "session_id st' = session_id st" by (simp add: assms(13))
  have load: "load_state (save_state db st') (session_id st) = Some st'"
    using load_save [of db st'] by (simp add: sid)
  show ?thesis
    using step load assms(3,5) by (simp add: assms(13) mark_status_unchanged)
qed


lemma dict_reply_turn_clarifies_on_maybe:
  "next_step SURVEYS started_db ''s1'' ''CULTURE_DISCRIMINATION'' maybe_turn =
     Inr (\<lparr>res_session_id = ''s1'', res_interview_id = None, message = JStr (q_text Q1)\<rparr>,
          [(''s1'',
            append_history
              (append_history started_state ''user'' (JStr ''Maybe'') (Some ''Q1''))
              ''assistant'' (JStr (q_text Q1)) (Some ''Q1''))])
   \<and> normalize_answer Q1 (JStr ''Maybe'') = (JStr [], False, True)"
proof -
  let ?kvs = "[(''parsed_answer'', JDict [(''value'', JStr ''Maybe'')]),
               (''need_clarification'', JBool False),
               (''next_question_id'', JStr ''Q3'')]"
  have h1: "map_of SURVEYS ''CULTURE_DISCRIMINATION'' = Some CULTURE_DISCRIMINATION"
    by (simp add: SURVEYS_def)
  have h2: "load_state started_db ''s1'' = Some started_state"
    by (simp add: started_db_def load_state_def)
  have h3: "\<not> terminated started_state" by (simp add: started_state_def)
  have h4: "moderate_answer CULTURE_DISCRIMINATION (user_message maybe_turn) (on_topic maybe_turn)"
    by (simp add: moderate_answer_def maybe_turn_def answer_turn_def)
  have h5: "current_question_id started_state = Some ''Q1''" by (simp add: started_state_def)
  have h6: "map_of (get_question_map CULTURE_DISCRIMINATION) ''Q1'' = Some Q1" by code_simp
  have h7: "''Maybe'' = (case user_message maybe_turn of None \<Rightarrow> [] | Some m \<Rightarrow> m)"
    by (simp add: maybe_turn_def answer_turn_def)
  have h8: "survey_step (llm_state.truncate started_state) CULTURE_DISCRIMINATION ''Maybe''
              (reply maybe_turn) = JDict ?kvs"
    by (simp add: survey_step_def maybe_turn_def answer_turn_def)
  have h9: "dict_get (case map_of ?kvs ''parsed_answer'' of None \<Rightarrow> JDict [] | Some a \<Rightarrow> a)
              ''value'' = Inr (JStr ''Maybe'')"
    by (simp add: dict_get_def)
  have h10: "normalize_answer Q1 (JStr ''Maybe'') = (JStr [], False, True)"
    by (simp add: normalize_answer_def Q1_def)
  have h11: "\<not> False \<or> truthy (case map_of ?kvs ''need_clarification'' of None \<Rightarrow> JNull | Some f \<Rightarrow> f)"
    by simp
  have h12: "JStr (q_text Q1) =
               py_or (case map_of ?kvs ''clarification_question'' of None \<Rightarrow> JNull | Some x \<Rightarrow> x)
                 (JStr (q_text Q1))"
    by (simp add: py_or_def)
  have m: "mark_conditionally_skipped started_state CULTURE_DISCRIMINATION = started_state"
    by code_simp
  have i: "session_id started_state = ''s1''" by (simp add: started_state_def)
  have s: "save_state started_db
             (append_history
               (append_history started_state ''user'' (JStr ''Maybe'') (Some ''Q1''))
               ''assistant'' (JStr (q_text Q1)) (Some ''Q1'')) =
           [(''s1'',
             append_history
               (append_history started_state ''user'' (JStr ''Maybe'') (Some ''Q1''))
               ''assistant'' (JStr (q_text Q1)) (Some ''Q1''))]"
    by (simp add: save_state_def started_db_def started_state_def)
  from dict_reply_turn_clarifies [OF h1 h2 h3 h4 h5 h6 h7 h8 h9 h10 h11 h12 refl]
  show ?thesis by (simp only: m i s h10 simp_thms)
qed

text \<open>
  Claim C5 asks this of every turn in which the normaliser reports the value invalid.
  It fails when the reply is not a dict. On the repository's survey, in the session
  that the first contact has left on Q1 (\<open>started_reachable\<close>), take a reply that is a
  JSON list: line 186 takes \<^verbatim>\<open>{}\<close> for \<^verbatim>\<open>parsed_answer\<close>, line 187 reads the
  value \<^verbatim>\<open>None\<close>, the normaliser reports it invalid and asks for clarification
  (line 188), and line 189 calls \<^verbatim>\<open>response.get\<close> on the list. The call raises
  \<^verbatim>\<open>AttributeError\<close>: the flag is never forced on, no clarification is returned and
  nothing is saved. This is the unguarded \<^verbatim>\<open>response.get\<close> of claim C1, met on the
  path claim C5 describes.
\<close>

theorem invalid_value_turn_raises:
  "load_state started_db ''s1'' = Some started_state
   \<and> current_question_id started_state = Some ''Q1''
   \<and> reply list_reply_turn = Some (JList [])
   \<and> value_read (JList []) = Inr JNull
   \<and> normalize_answer Q1 JNull = (JStr [], False, True)
   \<and> next_step SURVEYS started_db ''s1'' ''CULTURE_DISCRIMINATION'' list_reply_turn
       = Inl AttributeError"
  by code_simp

section \<open>The current question is the one asked\<close>

text \<open>
  Claim C3, as the code has it. Call a store in order when every session in it that has
  not terminated has, if its \<^verbatim>\<open>current_question_id\<close> is set, the status
  \<^verbatim>\<open>asked\<close> recorded for that id. Every completed \<^verbatim>\<open>begin_session\<close> and
  \<^verbatim>\<open>next_step\<close> takes a store in order to a store in order, and so does every
  sequence of calls; the empty store is in order. Nothing is said of a terminated
  session: the engine leaves its \<^verbatim>\<open>current_question_id\<close> on the last question.
\<close>

theorem current_question_asked_until_terminated:
  assumes "store_ok db"
  shows "(begin_session svs db sid svid = Inr (r, db') \<longrightarrow> store_ok db')
       \<and> (next_step svs db sid svid t = Inr (r, db') \<longrightarrow> store_ok db')
       \<and> (run svs db sid svid ts = Inr (rs, db') \<longrightarrow> store_ok db')"
proof (intro conjI impI)
  assume "begin_session svs db sid svid = Inr (r, db')"
  from begin_session_result [OF this] assms show "store_ok db'"
    by (auto intro: store_ok_save)
next
  assume "next_step svs db sid svid t = Inr (r, db')"
  with assms show "store_ok db'" by (rule next_step_store_ok)
next
  assume "run svs db sid svid ts = Inr (rs, db')"
  with assms show "store_ok db'" by (rule run_store_ok)
qed

theorem current_question_asked_until_terminated_witness:
  "store_ok []
   \<and> begin_session SURVEYS [] ''s1'' ''CULTURE_DISCRIMINATION'' =
       Inr (\<lparr>res_session_id = ''s1'', res_interview_id = Some ''CULTURE_DISCRIMINATION'',
             message = JStr (render_intro_and_question CULTURE_DISCRIMINATION Q1)\<rparr>, started_db)
   \<and> store_ok started_db
   \<and> store_ok [(''s1'',
            append_history
              (append_history started_state ''user'' (JStr ''Maybe'') (Some ''Q1''))
              ''assistant'' (JStr (q_text Q1)) (Some ''Q1''))]"
proof -
  have e: "store_ok []" by (simp add: store_ok_def)
  from current_question_asked_until_terminated [OF e, of SURVEYS "''s1''"
      "''CULTURE_DISCRIMINATION''" _ started_db] started_reachable
  have s: "store_ok started_db" by simp
  from current_question_asked_until_terminated [OF s, of SURVEYS "''s1''"
      "''CULTURE_DISCRIMINATION''" _ _ maybe_turn] maybe_turn_step
  have "store_ok [(''s1'',
            append_history
              (append_history started_state ''user'' (JStr ''Maybe'') (Some ''Q1''))
              ''assistant'' (JStr (q_text Q1)) (Some ''Q1''))]"
    by simp
  with e s started_reachable show ?thesis by simp
qed

text \<open>
  The claim as written fails when a session ends: after the last answer of a session of
  the repository's survey the state is saved as terminated with Q7 still current, and
  the status of Q7 is \<^verbatim>\<open>answered\<close>.
\<close>

theorem current_question_answered_at_end_counterexample:
  "map_option progress
     (load_state (snd (projr (run SURVEYS [] ''s1'' ''CULTURE_DISCRIMINATION'' full_session)))
        ''s1'')
   = Some (True, Some ''Q7'',
        [(''Q1'', Answered), (''Q2'', Skipped), (''Q3'', Answered), (''Q4'', Skipped),
         (''Q5'', Answered), (''Q6'', Answered), (''Q7'', Answered)])"
  by code_simp

section \<open>Choosing the next question\<close>

text \<open>
  Claim C2. Take a turn that records an answer: the session has not terminated, the
  message passes moderation, the current question \<open>c\<close> is in the definition, the reply
  is a dict whose value normalises as valid and that does not flag clarification. Let
  \<open>s\<close> be the state once the answer is stored (line 201). Then the reply's
  \<^verbatim>\<open>next_question_id\<close> becomes the current question, with status \<^verbatim>\<open>asked\<close>, if
  and only if it is the id of a question eligible in \<open>s\<close>; otherwise the question chosen
  is the first question eligible in \<open>s\<close> among those strictly after \<open>c\<close> in definition
  order, and when there is none the session terminates. The scans of
  \<^verbatim>\<open>_eligible_questions\<close> and \<^verbatim>\<open>_deterministic_next_question\<close> compute exactly
  these two notions (\<open>eligible_questions_list\<close>, \<open>deterministic_next_candidate\<close>). Question
  ids are taken to be unique within the definition and not empty.
\<close>

theorem proposal_adopted_iff_eligible:
  assumes "map_of svs svid = Some d" "load_state db sid = Some st" "\<not> terminated st"
    and "moderate_answer d (user_message t) (on_topic t)"
    and "current_question_id st = Some c" "map_of (get_question_map d) c = Some cq"
    and "msg = (case user_message t of None \<Rightarrow> [] | Some m \<Rightarrow> m)"
    and "survey_step (llm_state.truncate st) d msg (reply t) = JDict kvs"
    and "dict_get (case map_of kvs ''parsed_answer'' of None \<Rightarrow> JDict [] | Some a \<Rightarrow> a) ''value''
           = Inr v"
    and "normalize_answer cq v = (n, True, nc)"
    and "\<not> truthy (case map_of kvs ''need_clarification'' of None \<Rightarrow> JNull | Some f \<Rightarrow> f)"
    and "distinct (map q_id (questions d))" "[] \<notin> set (map q_id (questions d))"
    and "s = store_answer
               (append_history (mark_conditionally_skipped st d) ''user'' (JStr msg) (Some c))
               cq n"
    and "proposal = (case map_of kvs ''next_question_id'' of None \<Rightarrow> JNull | Some x \<Rightarrow> x)"
    and "chosen =
           (case proposal of
              JStr p \<Rightarrow> if p \<in> set (eligible_ids s d) then Some p else first_eligible_after s d
            | _ \<Rightarrow> first_eligible_after s d)"
  shows "\<exists>r st'. next_step svs db sid svid t = Inr (r, save_state db st')
           \<and> load_state (save_state db st') (session_id st) = Some st'
           \<and> answers st' = answers s
           \<and> (case chosen of
                 Some q \<Rightarrow> current_question_id st' = Some q \<and> \<not> terminated st'
                         \<and> map_of (question_status st') q = Some Asked
               | None \<Rightarrow> terminated st' \<and> current_question_id st' = Some c)
           \<and> (\<forall>p. proposal = JStr p \<longrightarrow>
                 (current_question_id st' = Some p \<and> \<not> terminated st'
                    \<longleftrightarrow> p \<in> set (eligible_ids s d)))
           \<and> first_eligible_after s d =
                 map_option q_id
                   (find (eligible_in s)
                      (drop (index_of (map q_id (questions d)) c + 1) (questions d)))"
proof -
  have c: "q_id cq = c" and cin: "cq \<in> set (questions d)"
    using question_map_SomeD [OF assms(6)] by simp_all
  let ?st1 = "append_history (mark_conditionally_skipped st d) ''user'' (JStr msg) (Some c)"
  have "next_step svs db sid svid t = interpret_reply db sid ?st1 d cq (JDict kvs)"
    using next_step_active [OF assms(1-7)] by (simp add: assms(8) c)
  also have "\<dots> = advance db sid s d (JDict kvs)"
    unfolding assms(14) by (rule interpret_reply_store [OF assms(9-11)])
  finally have step: "next_step svs db sid svid t = advance db sid s d (JDict kvs)" .
  from advance_chosen [OF assms(12,13) assms(16) [unfolded assms(15)], of db sid]
  obtain r st' where adv: "advance db sid s d (JDict kvs) = Inr (r, save_state db st')"
    and sid: "session_id st' = session_id s" and ans: "answers st' = answers s"
    and ch: "case chosen of
                 Some n \<Rightarrow> current_question_id st' = Some n \<and> terminated st' = terminated s
                         \<and> map_of (question_status st') n = Some Asked
               | None \<Rightarrow> terminated st' \<and> current_question_id st' = current_question_id s"
    by blast
  have fs: "session_id s = session_id st" "terminated s = terminated st"
    "current_question_id s = Some c"
    by (simp_all add: assms(14) assms(5))
  have load: "load_state (save_state db st') (session_id st) = Some st'"
    using load_save [of db st'] by (simp add: sid fs)
  have ch': "case chosen of
                 Some q \<Rightarrow> current_question_id st' = Some q \<and> \<not> terminated st'
                         \<and> map_of (question_status st') q = Some Asked
               | None \<Rightarrow> terminated st' \<and> current_question_id st' = Some c"
    using ch assms(3) by (simp add: fs split: option.splits)
  have iff: "current_question_id st' = Some p \<and> \<not> terminated st' \<longleftrightarrow> p \<in> set (eligible_ids s d)"
    if p: "proposal = JStr p" for p
  proof (cases "p \<in> set (eligible_ids s d)")
    case True
    with p have "chosen = Some p" by (simp add: assms(16))
    with ch' True show ?thesis by simp
  next
    case False
    with p have e: "chosen = first_eligible_after s d" by (simp add: assms(16))
    show ?thesis
    proof (cases chosen)
      case None
      with ch' False show ?thesis by simp
    next
      case (Some q)
      with e first_eligible_after_eligible [of s d q] have "q \<in> set (eligible_ids s d)" by simp
      with False have "q \<noteq> p" by auto
      with ch' Some False show ?thesis by simp
    qed
  qed
  have "c \<in> set (map q_id (questions d))" using cin c by auto
  then have after: "first_eligible_after s d =
                 map_option q_id
                   (find (eligible_in s)
                      (drop (index_of (map q_id (questions d)) c + 1) (questions d)))"
    by (simp add: first_eligible_after_def questions_after_current_def fs)
  show ?thesis
    using step adv load ans ch' iff after by (intro exI [of _ r] exI [of _ st']) simp
qed


theorem proposal_adopted_iff_eligible_witness:
  "map_option current_question_id
     (load_state (snd (projr (next_step SURVEYS started_db ''s1'' ''CULTURE_DISCRIMINATION''
                                (answer_turn ''Yes'' (JStr ''Q5''))))) ''s1'')
     = Some (Some ''Q5'')
   \<and> map_option current_question_id
     (load_state (snd (projr (next_step SURVEYS started_db ''s1'' ''CULTURE_DISCRIMINATION''
                                (answer_turn ''Yes'' (JStr ''Q2''))))) ''s1'')
     = Some (Some ''Q3'')"
proof -
  let ?s = "store_answer
              (append_history
                 (mark_conditionally_skipped started_state CULTURE_DISCRIMINATION)
                 ''user'' (JStr ''Yes'') (Some ''Q1''))
              Q1 (JStr ''Yes'')"
  have h1: "map_of SURVEYS ''CULTURE_DISCRIMINATION'' = Some CULTURE_DISCRIMINATION"
    by (simp add: SURVEYS_def)
  have h2: "load_state started_db ''s1'' = Some started_state"
    by (simp add: started_db_def load_state_def)
  have h3: "\<not> terminated started_state" by (simp add: started_state_def)
  have h5: "current_question_id started_state = Some ''Q1''" by (simp add: started_state_def)
  have h6: "map_of (get_question_map CULTURE_DISCRIMINATION) ''Q1'' = Some Q1" by code_simp
  have h10: "normalize_answer Q1 (JStr ''Yes'') = (JStr ''Yes'', True, False)"
    by (simp add: normalize_answer_def Q1_def)
  have h12: "distinct (map q_id (questions CULTURE_DISCRIMINATION))" by code_simp
  have h13: "[] \<notin> set (map q_id (questions CULTURE_DISCRIMINATION))" by code_simp
  have el: "eligible_ids ?s CULTURE_DISCRIMINATION = [''Q3'', ''Q5'', ''Q6'', ''Q7'']"
    by code_simp
  have fa: "first_eligible_after ?s CULTURE_DISCRIMINATION = Some ''Q3''" by code_simp
  have i: "session_id started_state = ''s1''" by (simp add: started_state_def)

  let ?kvsa = "[(''parsed_answer'', JDict [(''value'', JStr ''Yes'')]),
               (''need_clarification'', JBool False),
               (''next_question_id'', JStr ''Q5'')]"
  have b4: "moderate_answer CULTURE_DISCRIMINATION (user_message (answer_turn ''Yes'' (JStr ''Q5'')))
              (on_topic (answer_turn ''Yes'' (JStr ''Q5'')))"
    by (simp add: moderate_answer_def answer_turn_def)
  have b7: "''Yes'' = (case user_message (answer_turn ''Yes'' (JStr ''Q5'')) of
                        None \<Rightarrow> [] | Some m \<Rightarrow> m)"
    by (simp add: answer_turn_def)
  have b8: "survey_step (llm_state.truncate started_state) CULTURE_DISCRIMINATION ''Yes''
              (reply (answer_turn ''Yes'' (JStr ''Q5''))) = JDict ?kvsa"
    by (simp add: survey_step_def answer_turn_def)
  have b9: "dict_get (case map_of ?kvsa ''parsed_answer'' of None \<Rightarrow> JDict [] | Some a \<Rightarrow> a)
              ''value'' = Inr (JStr ''Yes'')"
    by (simp add: dict_get_def)
  have b11: "\<not> truthy (case map_of ?kvsa ''need_clarification'' of None \<Rightarrow> JNull | Some f \<Rightarrow> f)"
    by simp
  have b16: "Some ''Q5'' =
           (case (case map_of ?kvsa ''next_question_id'' of None \<Rightarrow> JNull | Some x \<Rightarrow> x) of
              JStr p \<Rightarrow> if p \<in> set (eligible_ids ?s CULTURE_DISCRIMINATION) then Some p
                        else first_eligible_after ?s CULTURE_DISCRIMINATION
            | _ \<Rightarrow> first_eligible_after ?s CULTURE_DISCRIMINATION)"
    by (simp add: el fa)
  from proposal_adopted_iff_eligible [OF h1 h2 h3 b4 h5 h6 b7 b8 b9 h10 b11 h12 h13 refl refl b16]
  obtain ra sta where
    "next_step SURVEYS started_db ''s1'' ''CULTURE_DISCRIMINATION'' (answer_turn ''Yes'' (JStr ''Q5''))
       = Inr (ra, save_state started_db sta)"
    "load_state (save_state started_db sta) (session_id started_state) = Some sta"
    "current_question_id sta = Some ''Q5''"
    by auto
  then have resa: "map_option current_question_id
     (load_state (snd (projr (next_step SURVEYS started_db ''s1'' ''CULTURE_DISCRIMINATION''
                                (answer_turn ''Yes'' (JStr ''Q5''))))) ''s1'')
     = Some (Some ''Q5'')"
    by (simp add: i)

  let ?kvsc = "[(''parsed_answer'', JDict [(''value'', JStr ''Yes'')]),
               (''need_clarification'', JBool False),
               (''next_question_id'', JStr ''Q2'')]"
  have a4: "moderate_answer CULTURE_DISCRIMINATION (user_message (answer_turn ''Yes'' (JStr ''Q2'')))
              (on_topic (answer_turn ''Yes'' (JStr ''Q2'')))"
    by (simp add: moderate_answer_def answer_turn_def)
  have a7: "''Yes'' = (case user_message (answer_turn ''Yes'' (JStr ''Q2'')) of
                        None \<Rightarrow> [] | Some m \<Rightarrow> m)"
    by (simp add: answer_turn_def)
  have a8: "survey_step (llm_state.truncate started_state) CULTURE_DISCRIMINATION ''Yes''
              (reply (answer_turn ''Yes'' (JStr ''Q2''))) = JDict ?kvsc"
    by (simp add: survey_step_def answer_turn_def)
  have a9: "dict_get (case map_of ?kvsc ''parsed_answer'' of None \<Rightarrow> JDict [] | Some a \<Rightarrow> a)
              ''value'' = Inr (JStr ''Yes'')"
    by (simp add: dict_get_def)
  have a11: "\<not> truthy (case map_of ?kvsc ''need_clarification'' of None \<Rightarrow> JNull | Some f \<Rightarrow> f)"
    by simp
  have a16: "Some ''Q3'' =
           (case (case map_of ?kvsc ''next_question_id'' of None \<Rightarrow> JNull | Some x \<Rightarrow> x) of
              JStr p \<Rightarrow> if p \<in> set (eligible_ids ?s CULTURE_DISCRIMINATION) then Some p
                        else first_eligible_after ?s CULTURE_DISCRIMINATION
            | _ \<Rightarrow> first_eligible_after ?s CULTURE_DISCRIMINATION)"
    by (simp add: el fa)
  from proposal_adopted_iff_eligible [OF h1 h2 h3 a4 h5 h6 a7 a8 a9 h10 a11 h12 h13 refl refl a16]
  obtain rc stc where
    "next_step SURVEYS started_db ''s1'' ''CULTURE_DISCRIMINATION'' (answer_turn ''Yes'' (JStr ''Q2''))
       = Inr (rc, save_state started_db stc)"
    "load_state (save_state started_db stc) (session_id started_state) = Some stc"
    "current_question_id stc = Some ''Q3''"
    by auto
  then have resc: "map_option current_question_id
     (load_state (snd (projr (next_step SURVEYS started_db ''s1'' ''CULTURE_DISCRIMINATION''
                                (answer_turn ''Yes'' (JStr ''Q2''))))) ''s1'')
     = Some (Some ''Q3'')"
    by (simp add: i)

  from resa resc show ?thesis by simp
qed

section \<open>The order in which questions are asked\<close>




section \<open>The wording of the agent does not steer the survey\<close>

text \<open>
  Claim C8, as the code has it. Take two runs of a session over the same definitions,
  from the same store, that get the same answers: call by call, the moderation check
  gives both the same verdict, and the agent returns to both the same parsed answer
  value, clarification flag and proposed next question, whatever its
  \<^verbatim>\<open>assistant_question_text\<close> and \<^verbatim>\<open>clarification_question\<close> and whatever the
  messages of the caller. Then the sequences of question ids that become asked are the
  same in the two runs. The proof shows more (\<open>next_step_agree\<close>): call by call, both
  runs raise the same exception or leave stores that differ in their transcripts only.
\<close>

theorem asked_sequence_independent_of_wording:
  assumes "same_answers svs sid svid db ts db ts'"
  shows "asked_sequence svs db sid svid ts = asked_sequence svs db sid svid ts'"
  using assms by (rule asked_sequence_agree) simp

theorem asked_sequence_independent_of_wording_witness:
  "same_answers SURVEYS ''s1'' ''CULTURE_DISCRIMINATION'' [] plain_session [] reworded_session
   \<and> map user_message plain_session \<noteq> map user_message reworded_session
   \<and> map reply plain_session \<noteq> map reply reworded_session
   \<and> asked_sequence SURVEYS [] ''s1'' ''CULTURE_DISCRIMINATION'' plain_session = [''Q1'', ''Q3'']
   \<and> asked_sequence SURVEYS [] ''s1'' ''CULTURE_DISCRIMINATION'' reworded_session = [''Q1'', ''Q3'']"
proof -
  have h: "same_answers SURVEYS ''s1'' ''CULTURE_DISCRIMINATION'' [] plain_session [] reworded_session"
    by code_simp
  have n: "map user_message plain_session \<noteq> map user_message reworded_session"
    "map reply plain_session \<noteq> map reply reworded_session" by code_simp+
  have s: "asked_sequence SURVEYS [] ''s1'' ''CULTURE_DISCRIMINATION'' plain_session
             = [''Q1'', ''Q3'']"
    by code_simp
  from asked_sequence_independent_of_wording [OF h] h n s
  show ?thesis by simp
qed

text \<open>
  The claim as written fails when the answers are moderated: the verdict of the check
  depends on the transcript, and the transcript holds the texts of the agent. The two
  sessions below have the same messages, and their replies the same values, flags and
  proposals; they differ in the clarification text of the second call. The check
  \<open>strict_review\<close> reads that text in the third call: it passes the answer No in one
  run, where Q3 becomes asked, and rejects it in the other, which stays on Q1.
\<close>

theorem wording_steers_moderation_counterexample:
  "map user_message plain_session = map user_message chatty_session
   \<and> map returns plain_session = map returns chatty_session
   \<and> map reply plain_session \<noteq> map reply chatty_session
   \<and> asked_sequence MODERATED [] ''s1'' ''CULTURE_DISCRIMINATION''
        (reviewed strict_review MODERATED [] ''s1'' ''CULTURE_DISCRIMINATION'' plain_session)
       = [''Q1'', ''Q3'']
   \<and> asked_sequence MODERATED [] ''s1'' ''CULTURE_DISCRIMINATION''
        (reviewed strict_review MODERATED [] ''s1'' ''CULTURE_DISCRIMINATION'' chatty_session)
       = [''Q1'']
   \<and> map on_topic (reviewed strict_review MODERATED [] ''s1'' ''CULTURE_DISCRIMINATION'' plain_session)
       = [True, True, True]
   \<and> map on_topic (reviewed strict_review MODERATED [] ''s1'' ''CULTURE_DISCRIMINATION'' chatty_session)
       = [True, True, False]"
  by code_simp

end
